theory Spec2Isabelle
  imports Main
begin

section \<open>Values\<close>

text \<open>
  The payload of an event is a JSON object: its own properties, by name. The values of
  the properties are JSON values.
\<close>

datatype json =
    PNull
  | PBool bool
  | PNum int
  | PStr string
  | PArr "json list"
  | PObj "(string \<times> json) list"

text \<open>\<^verbatim>\<open>class Context\<close> of \<^verbatim>\<open>context.ts\<close>: the event name and the payload.\<close>

record Context =
  eventName :: string
  event :: "string \<rightharpoonup> json"

text \<open>
  The values a middleware can throw, by what \<^verbatim>\<open>typeof\<close> and \<^verbatim>\<open>instanceof Error\<close> tell
  about them. A number is kept as its decimal rendering, a symbol as its description, an
  \<^verbatim>\<open>Error\<close> as its name and message. A \<^verbatim>\<open>BotError\<close> is an \<^verbatim>\<open>Error\<close> named
  \<^verbatim>\<open>BotError\<close> that holds its message, the wrapped value and the context. Stack traces
  are left out.
\<close>

datatype jsval =
    JUndefined
  | JNull
  | JBoolean bool
  | JNumber string
  | JBigInt int
  | JString string
  | JSymbol string
  | JFunction
  | JObject
  | JError string string
  | JBotError string jsval Context

fun typeof :: "jsval \<Rightarrow> string" where
  "typeof JUndefined = ''undefined''"
| "typeof JNull = ''object''"
| "typeof (JBoolean b) = ''boolean''"
| "typeof (JNumber n) = ''number''"
| "typeof (JBigInt i) = ''bigint''"
| "typeof (JString s) = ''string''"
| "typeof (JSymbol d) = ''symbol''"
| "typeof JFunction = ''function''"
| "typeof JObject = ''object''"
| "typeof (JError n m) = ''object''"
| "typeof (JBotError m e c) = ''object''"

fun instanceof_Error :: "jsval \<Rightarrow> bool" where
  "instanceof_Error (JError n m) = True"
| "instanceof_Error (JBotError m e c) = True"
| "instanceof_Error v = False"

fun error_name :: "jsval \<Rightarrow> string" where
  "error_name (JError n m) = n"
| "error_name (JBotError m e c) = ''BotError''"
| "error_name v = []"

fun error_message :: "jsval \<Rightarrow> string" where
  "error_message (JError n m) = m"
| "error_message (JBotError m e c) = m"
| "error_message v = []"

text \<open>Decimal digits of a natural number and of an integer, as \<^verbatim>\<open>BigInt.prototype.toString\<close> writes them.\<close>

definition digit :: "nat \<Rightarrow> char" where
  "digit d = ''0123456789'' ! d"

function digits :: "nat \<Rightarrow> string" where
  "digits n = (if n < 10 then [digit n] else digits (n div 10) @ [digit (n mod 10)])"
  by pat_completeness auto
termination
  by (relation "measure id") auto

definition decimal :: "int \<Rightarrow> string" where
  "decimal i = (if i < 0 then CHR ''-'' # digits (nat (- i)) else digits (nat i))"

text \<open>
  The conversion a template literal applies to an embedded value (\<^verbatim>\<open>ToString\<close> of the
  language): it throws a \<^verbatim>\<open>TypeError\<close> on a symbol, whose message text is the engine's.
  An \<^verbatim>\<open>Error\<close> is rendered as \<^verbatim>\<open>Error.prototype.toString\<close> does. The last equation
  stands for the values rendered by a \<^verbatim>\<open>toString\<close> method of their own, with the rendering
  of a plain object; \<^verbatim>\<open>generateBotErrorMessage\<close> converts primitive values only.
\<close>

definition symbol_TypeError :: jsval where
  "symbol_TypeError = JError ''TypeError'' ''Cannot convert a Symbol value to a string''"

definition Error_toString :: "string \<Rightarrow> string \<Rightarrow> string" where
  "Error_toString name msg =
     (if name = [] then msg else if msg = [] then name else name @ '': '' @ msg)"

fun ToString :: "jsval \<Rightarrow> jsval + string" where
  "ToString (JBoolean b) = Inr (if b then ''true'' else ''false'')"
| "ToString (JNumber n) = Inr n"
| "ToString (JBigInt i) = Inr (decimal i)"
| "ToString (JString s) = Inr s"
| "ToString (JSymbol d) = Inl symbol_TypeError"
| "ToString JUndefined = Inr ''undefined''"
| "ToString JNull = Inr ''null''"
| "ToString (JError n m) = Inr (Error_toString n m)"
| "ToString (JBotError m e c) = Inr (Error_toString ''BotError'' m)"
| "ToString v = Inr ''[object Object]''"

text \<open>
  \<^verbatim>\<open>String(error)\<close>: as \<^verbatim>\<open>ToString\<close>, but a symbol is rendered with its description. The
  code applies it to values whose \<^verbatim>\<open>typeof\<close> is \<^verbatim>\<open>string\<close>.
\<close>

fun String_of :: "jsval \<Rightarrow> string" where
  "String_of (JSymbol d) = ''Symbol('' @ d @ '')''"
| "String_of v = (case ToString v of Inr s \<Rightarrow> s | Inl e \<Rightarrow> [])"

text \<open>\<^verbatim>\<open>generateBotErrorMessage\<close>: the message of a dispatch error, or the value thrown while building it.\<close>

definition generateBotErrorMessage :: "jsval \<Rightarrow> jsval + string" where
  "generateBotErrorMessage error =
     (if instanceof_Error error
      then Inr (error_name error @ '' in middleware: '' @ error_message error)
      else
        let type = typeof error;
            msg = ''Non-error value of type '' @ type @ '' thrown in middleware''
        in if type = ''bigint'' \<or> type = ''boolean'' \<or> type = ''number'' \<or> type = ''symbol''
           then (case ToString error of
                   Inl e \<Rightarrow> Inl e
                 | Inr s \<Rightarrow> Inr (msg @ '': '' @ s))
           else if type = ''string''
           then Inr (msg @ '': '' @ take 50 (String_of error))
           else Inr (msg @ ''!''))"

text \<open>The constructor of \<^verbatim>\<open>BotError\<close>: it fails when building the message fails.\<close>

definition BotError :: "jsval \<Rightarrow> Context \<Rightarrow> jsval + jsval" where
  "BotError error ctx =
     (case generateBotErrorMessage error of
        Inl e \<Rightarrow> Inl e
      | Inr msg \<Rightarrow> Inr (JBotError msg error ctx))"

section \<open>Computations\<close>

text \<open>
  What a dispatch can observe of the code the user supplies: a middleware was entered, a
  middleware invoked its continuation, an effect of the user's code (a middleware, a
  predicate, a router, a factory or an error handler) took place, an error handler received
  a dispatch error.
\<close>

datatype obs =
    Started string
  | Invoked string
  | Did string string
  | Handling string jsval

text \<open>
  The state of one dispatch: the \<^verbatim>\<open>nextCalled\<close> variables of the closures that are alive
  (one cell for each \<^verbatim>\<open>let nextCalled = false\<close> that was executed), and what was observed
  so far.
\<close>

record dstate =
  flags :: "bool list"
  trace :: "obs list"

text \<open>
  Every call is awaited, so an asynchronous function is a function of the state that returns
  normally (\<open>Inr\<close>) or throws (\<open>Inl\<close>, a rejected promise), with the state it leaves.
\<close>

type_synonym 'a comp = "dstate \<Rightarrow> (jsval + 'a) \<times> dstate"

definition return :: "'a \<Rightarrow> 'a comp" where
  "return x = (\<lambda>s. (Inr x, s))"

definition throw :: "jsval \<Rightarrow> 'a comp" where
  "throw e = (\<lambda>s. (Inl e, s))"

definition bind :: "'a comp \<Rightarrow> ('a \<Rightarrow> 'b comp) \<Rightarrow> 'b comp" where
  "bind m f = (\<lambda>s. case m s of (Inl e, s') \<Rightarrow> (Inl e, s') | (Inr x, s') \<Rightarrow> f x s')"

definition try_catch :: "'a comp \<Rightarrow> (jsval \<Rightarrow> 'a comp) \<Rightarrow> 'a comp" where
  "try_catch m h = (\<lambda>s. case m s of (Inl e, s') \<Rightarrow> h e s' | (Inr x, s') \<Rightarrow> (Inr x, s'))"

definition lift :: "jsval + 'a \<Rightarrow> 'a comp" where
  "lift r = (\<lambda>s. (r, s))"

definition emit :: "obs \<Rightarrow> unit comp" where
  "emit e = (\<lambda>s. (Inr (), s\<lparr>trace := trace s @ [e]\<rparr>))"

text \<open>\<^verbatim>\<open>let nextCalled = false\<close>, reading the variable, and assigning to it.\<close>

definition new_flag :: "nat comp" where
  "new_flag = (\<lambda>s. (Inr (length (flags s)), s\<lparr>flags := flags s @ [False]\<rparr>))"

definition get_flag :: "nat \<Rightarrow> bool comp" where
  "get_flag a = (\<lambda>s. (Inr (flags s ! a), s))"

definition set_flag :: "nat \<Rightarrow> bool \<Rightarrow> unit comp" where
  "set_flag a b = (\<lambda>s. (Inr (), s\<lparr>flags := (flags s)[a := b]\<rparr>))"

section \<open>Middleware\<close>

type_synonym NextFunction = "unit comp"

type_synonym MiddlewareFn = "Context \<Rightarrow> NextFunction \<Rightarrow> unit comp"

text \<open>
  \<^verbatim>\<open>Middleware = MiddlewareFn | MiddlewareObj\<close>; a \<^verbatim>\<open>MiddlewareObj\<close> has the method
  \<^verbatim>\<open>middleware()\<close>, called when a dispatch reaches it.
\<close>

datatype Middleware =
    Fn MiddlewareFn
  | Obj "unit \<Rightarrow> MiddlewareFn"

datatype 'a MaybeArray =
    Single 'a
  | Array "'a list"

text \<open>\<^verbatim>\<open>Array.isArray(x) ? x : [x]\<close>\<close>

fun toArray :: "'a MaybeArray \<Rightarrow> 'a list" where
  "toArray (Single x) = [x]"
| "toArray (Array xs) = xs"

fun flatten :: "Middleware \<Rightarrow> MiddlewareFn" where
  "flatten (Fn mw) = mw"
| "flatten (Obj mw) = (\<lambda>ctx next. mw () ctx next)"

definition double_next_Error :: jsval where
  "double_next_Error = JError ''Error'' ''`next` already called before!''"

text \<open>The continuation that \<^verbatim>\<open>concat\<close> hands to \<^verbatim>\<open>first\<close>; \<open>nextCalled\<close> is the cell of the activation.\<close>

definition concat_next :: "nat \<Rightarrow> MiddlewareFn \<Rightarrow> Context \<Rightarrow> NextFunction \<Rightarrow> NextFunction" where
  "concat_next nextCalled andThen ctx next =
     bind (get_flag nextCalled) (\<lambda>called.
       if called then throw double_next_Error
       else bind (set_flag nextCalled True) (\<lambda>_. andThen ctx next))"

definition concat_mw :: "MiddlewareFn \<Rightarrow> MiddlewareFn \<Rightarrow> MiddlewareFn" where
  "concat_mw first andThen =
     (\<lambda>ctx next. bind new_flag (\<lambda>nextCalled.
        first ctx (concat_next nextCalled andThen ctx next)))"

definition pass :: MiddlewareFn where
  "pass = (\<lambda>ctx next. next)"

definition leaf :: NextFunction where
  "leaf = return ()"

definition run :: "MiddlewareFn \<Rightarrow> Context \<Rightarrow> unit comp" where
  "run middleware ctx = middleware ctx leaf"

section \<open>Composer\<close>

record Composer =
  handler :: MiddlewareFn

text \<open>
  The constructor. \<^verbatim>\<open>reduce\<close> without an initial value, on an array that is not empty,
  starts from the first element and folds the others in from the left.
\<close>

definition new_Composer :: "Middleware list \<Rightarrow> Composer" where
  "new_Composer mws =
     \<lparr> handler = (case map flatten mws of
                    [] \<Rightarrow> pass
                  | first # others \<Rightarrow> foldl concat_mw first others) \<rparr>"

definition middleware :: "Composer \<Rightarrow> unit \<Rightarrow> MiddlewareFn" where
  "middleware this = (\<lambda>_. handler this)"

text \<open>
  A method that changes \<^verbatim>\<open>this\<close> returns its result together with the changed composer.
  A composer handed on as a middleware object yields, when a dispatch reaches it, the
  handler it has then; the model takes the handler it has when it is handed on, so it
  describes dispatches through composers that are no longer extended.
\<close>

definition use :: "Composer \<Rightarrow> Middleware list \<Rightarrow> Composer \<times> Composer" where
  "use this mws =
     (let composer = new_Composer mws
      in (composer, this\<lparr>handler := concat_mw (handler this) (flatten (Obj (middleware composer)))\<rparr>))"

definition lazy_fn :: "(Context \<Rightarrow> Middleware MaybeArray comp) \<Rightarrow> MiddlewareFn" where
  "lazy_fn middlewareFactory =
     (\<lambda>ctx next. bind (middlewareFactory ctx) (\<lambda>mw.
        let arr = toArray mw
        in flatten (Obj (middleware (new_Composer arr))) ctx next))"

definition lazy :: "Composer \<Rightarrow> (Context \<Rightarrow> Middleware MaybeArray comp) \<Rightarrow> Composer \<times> Composer" where
  "lazy this middlewareFactory = use this [Fn (lazy_fn middlewareFactory)]"

definition branch_factory ::
  "(Context \<Rightarrow> bool comp) \<Rightarrow> Middleware MaybeArray \<Rightarrow> Middleware MaybeArray \<Rightarrow>
   Context \<Rightarrow> Middleware MaybeArray comp" where
  "branch_factory predicate trueMiddleware falseMiddleware =
     (\<lambda>ctx. bind (predicate ctx) (\<lambda>b. return (if b then trueMiddleware else falseMiddleware)))"

definition branch ::
  "Composer \<Rightarrow> (Context \<Rightarrow> bool comp) \<Rightarrow> Middleware MaybeArray \<Rightarrow> Middleware MaybeArray \<Rightarrow>
   Composer \<times> Composer" where
  "branch this predicate trueMiddleware falseMiddleware =
     lazy this (branch_factory predicate trueMiddleware falseMiddleware)"

definition filter_mw :: "Composer \<Rightarrow> (Context \<Rightarrow> bool comp) \<Rightarrow> Middleware list \<Rightarrow> Composer \<times> Composer" where
  "filter_mw this predicate mws =
     (let composer = new_Composer mws;
          this' = snd (branch this predicate (Single (Obj (middleware composer))) (Single (Fn pass)))
      in (composer, this'))"


text \<open>
  \<^verbatim>\<open>q.split('.')\<close>: the pieces of \<open>q\<close> between the separators; never an empty list.
\<close>

fun split_on :: "char \<Rightarrow> string \<Rightarrow> string list" where
  "split_on sep [] = [[]]"
| "split_on sep (x # xs) =
     (if x = sep then [] # split_on sep xs
      else (case split_on sep xs of
              [] \<Rightarrow> [[x]]
            | piece # pieces \<Rightarrow> (x # piece) # pieces))"

text \<open>The body of \<^verbatim>\<open>query.some((q) => ...)\<close> in \<^verbatim>\<open>on\<close>, for one query.\<close>

definition query_matches :: "Context \<Rightarrow> string \<Rightarrow> bool" where
  "query_matches c q =
     (case split_on (CHR ''.'') q of
        [] \<Rightarrow> False
      | event_part # rest \<Rightarrow>
          if event_part \<noteq> eventName c then False
          else (case rest of
                  [] \<Rightarrow> True
                | action # _ \<Rightarrow> ''action'' \<in> dom (event c) \<and> event c ''action'' = Some (PStr action)))"

definition on_predicate :: "string MaybeArray \<Rightarrow> Context \<Rightarrow> bool" where
  "on_predicate filter_arg c = (let query = toArray filter_arg in list_ex (query_matches c) query)"

text \<open>The predicate that \<^verbatim>\<open>on\<close> passes to \<^verbatim>\<open>filter\<close>: synchronous and without effects.\<close>

definition on_test :: "string MaybeArray \<Rightarrow> Context \<Rightarrow> bool comp" where
  "on_test filter_arg = (\<lambda>c. return (on_predicate filter_arg c))"

definition on :: "Composer \<Rightarrow> string MaybeArray \<Rightarrow> Middleware list \<Rightarrow> Composer \<times> Composer" where
  "on this filter_arg mws = filter_mw this (on_test filter_arg) mws"

text \<open>
  A value found under a key of \<^verbatim>\<open>routeHandlers\<close>: a middleware (any truthy value is taken
  for one), or a falsy value. The object has the entries stored in it and, behind them, the
  properties it inherits from its prototype chain; keys are property names.
\<close>

datatype entry =
    Falsy
  | Handler Middleware

record RouteHandlers =
  own :: "string \<rightharpoonup> entry"
  inherited :: "string \<rightharpoonup> entry"

text \<open>
  \<^verbatim>\<open>routeHandlers[route]\<close>: the object's own property of that name if it has one, else the
  inherited one, else \<^verbatim>\<open>undefined\<close>.
\<close>

definition get_property :: "RouteHandlers \<Rightarrow> string \<Rightarrow> entry option" where
  "get_property obj key = (case own obj key of Some v \<Rightarrow> Some v | None \<Rightarrow> inherited obj key)"

text \<open>
  The fallback is optional and defaults to \<^verbatim>\<open>pass\<close>; it is a middleware, never \<^verbatim>\<open>null\<close>, so
  the final \<^verbatim>\<open>?? []\<close> of the source does not apply.
\<close>

definition route_factory ::
  "(Context \<Rightarrow> string option comp) \<Rightarrow> RouteHandlers \<Rightarrow> Middleware option \<Rightarrow>
   Context \<Rightarrow> Middleware MaybeArray comp" where
  "route_factory router routeHandlers fallback_arg =
     (\<lambda>ctx.
        let fallback = (case fallback_arg of None \<Rightarrow> Fn pass | Some f \<Rightarrow> f)
        in bind (router ctx) (\<lambda>route.
             return (case route of
                       None \<Rightarrow> Single fallback
                     | Some r \<Rightarrow>
                         (case get_property routeHandlers r of
                            None \<Rightarrow> Single fallback
                          | Some Falsy \<Rightarrow> Single fallback
                          | Some (Handler mw) \<Rightarrow> Single mw))))"

definition route ::
  "Composer \<Rightarrow> (Context \<Rightarrow> string option comp) \<Rightarrow> RouteHandlers \<Rightarrow> Middleware option \<Rightarrow>
   Composer \<times> Composer" where
  "route this router routeHandlers fallback_arg =
     lazy this (route_factory router routeHandlers fallback_arg)"





text \<open>\<^verbatim>\<open>const cont = () => ((nextCalled = true), Promise.resolve())\<close>\<close>

definition cont :: "nat \<Rightarrow> NextFunction" where
  "cont nextCalled = bind (set_flag nextCalled True) (\<lambda>_. return ())"

text \<open>The function that \<^verbatim>\<open>errorBoundary\<close> registers with \<^verbatim>\<open>use\<close>.\<close>

definition errorBoundary_fn :: "(jsval \<Rightarrow> NextFunction \<Rightarrow> unit comp) \<Rightarrow> MiddlewareFn \<Rightarrow> MiddlewareFn" where
  "errorBoundary_fn errorHandler bound =
     (\<lambda>ctx next. bind new_flag (\<lambda>nextCalled.
        bind (try_catch (bound ctx (cont nextCalled))
                (\<lambda>err. bind (set_flag nextCalled False) (\<lambda>_.
                   bind (lift (BotError err ctx)) (\<lambda>e. errorHandler e (cont nextCalled)))))
          (\<lambda>_. bind (get_flag nextCalled) (\<lambda>called.
             if called then next else return ()))))"

definition errorBoundary ::
  "Composer \<Rightarrow> (jsval \<Rightarrow> NextFunction \<Rightarrow> unit comp) \<Rightarrow> Middleware list \<Rightarrow> Composer \<times> Composer" where
  "errorBoundary this errorHandler mws =
     (let composer = new_Composer mws;
          bound = flatten (Obj (middleware composer));
          this' = snd (use this [Fn (errorBoundary_fn errorHandler bound)])
      in (composer, this'))"

definition handle :: "Composer \<Rightarrow> Context \<Rightarrow> unit comp" where
  "handle this ctx = run (middleware this ()) ctx"

text \<open>A dispatch starts with no closure alive and nothing observed.\<close>

definition start :: dstate where
  "start = \<lparr> flags = [], trace = [] \<rparr>"

section \<open>The middleware a user writes\<close>

text \<open>
  What the body of a middleware or of an error handler does with its continuation, step by
  step: it returns, it has an effect and goes on, it throws, it awaits \<^verbatim>\<open>next()\<close> and goes
  on, or it awaits \<^verbatim>\<open>next()\<close> inside \<^verbatim>\<open>try\<close>, runs the first program when that throws,
  and goes on with the second.
\<close>

datatype prog =
    Return
  | Effect string prog
  | Throw jsval
  | CallNext prog
  | TryNext prog prog

primrec exec :: "string \<Rightarrow> prog \<Rightarrow> NextFunction \<Rightarrow> unit comp" where
  "exec name Return next = return ()"
| "exec name (Effect l p) next = bind (emit (Did name l)) (\<lambda>_. exec name p next)"
| "exec name (Throw v) next = throw v"
| "exec name (CallNext p) next =
     bind (emit (Invoked name)) (\<lambda>_. bind next (\<lambda>_. exec name p next))"
| "exec name (TryNext h p) next =
     bind (emit (Invoked name)) (\<lambda>_.
       bind (try_catch next (\<lambda>_. exec name h next)) (\<lambda>_. exec name p next))"

text \<open>A named middleware with the given body; its activation is observed.\<close>

definition script :: "string \<Rightarrow> (Context \<Rightarrow> prog) \<Rightarrow> MiddlewareFn" where
  "script name body = (\<lambda>ctx next. bind (emit (Started name)) (\<lambda>_. exec name (body ctx) next))"

text \<open>A named error handler with the given body; the error it receives is observed.\<close>

definition handler_script :: "string \<Rightarrow> (jsval \<Rightarrow> prog) \<Rightarrow> jsval \<Rightarrow> NextFunction \<Rightarrow> unit comp" where
  "handler_script name body = (\<lambda>err next. bind (emit (Handling name err)) (\<lambda>_. exec name (body err) next))"

text \<open>
  What a body does when its continuation never throws: how it ends, whether it invokes the
  continuation, and what it lets observe.
\<close>

fun ends :: "prog \<Rightarrow> jsval + unit" where
  "ends Return = Inr ()"
| "ends (Effect l p) = ends p"
| "ends (Throw v) = Inl v"
| "ends (CallNext p) = ends p"
| "ends (TryNext h p) = ends p"

fun invokes :: "prog \<Rightarrow> bool" where
  "invokes Return = False"
| "invokes (Effect l p) = invokes p"
| "invokes (Throw v) = False"
| "invokes (CallNext p) = True"
| "invokes (TryNext h p) = True"

fun seen :: "string \<Rightarrow> prog \<Rightarrow> obs list" where
  "seen n Return = []"
| "seen n (Effect l p) = Did n l # seen n p"
| "seen n (Throw v) = []"
| "seen n (CallNext p) = Invoked n # seen n p"
| "seen n (TryNext h p) = Invoked n # seen n p"

section \<open>Observations of a dispatch\<close>

text \<open>What a dispatch through a composer, started afresh, lets observe.\<close>

definition dispatch_trace :: "Composer \<Rightarrow> Context \<Rightarrow> obs list" where
  "dispatch_trace composer ctx = trace (snd (handle composer ctx start))"

text \<open>
  \<open>precedes x y tr\<close>: in \<open>tr\<close>, no \<open>y\<close> stands before the first \<open>x\<close>; so every \<open>y\<close>
  of \<open>tr\<close> has an \<open>x\<close> before it, and \<open>tr\<close> has no \<open>y\<close> when it has no \<open>x\<close>.
\<close>

fun precedes :: "'a \<Rightarrow> 'a \<Rightarrow> 'a list \<Rightarrow> bool" where
  "precedes x y [] = True"
| "precedes x y (e # es) = (if e = x then True else if e = y then False else precedes x y es)"

text \<open>A computation that only adds observations, and one that keeps a property of them.\<close>

definition extends :: "'a comp \<Rightarrow> bool" where
  "extends c \<longleftrightarrow> (\<forall>s. \<exists>extra. trace (snd (c s)) = trace s @ extra)"

definition tkeeps :: "(obs list \<Rightarrow> bool) \<Rightarrow> 'a comp \<Rightarrow> bool" where
  "tkeeps P c \<longleftrightarrow> (\<forall>s. P (trace s) \<longrightarrow> P (trace (snd (c s))))"

text \<open>
  A body that has effects and returns, without invoking its continuation and without
  throwing; and a body that invokes its continuation once, with effects before and after,
  and returns.
\<close>

fun quiet :: "prog \<Rightarrow> bool" where
  "quiet Return = True"
| "quiet (Effect l p) = quiet p"
| "quiet p = False"

fun calls_once :: "prog \<Rightarrow> bool" where
  "calls_once (Effect l p) = calls_once p"
| "calls_once (CallNext p) = quiet p"
| "calls_once (TryNext h p) = quiet p"
| "calls_once p = False"

text \<open>The effects at the head of a body, and what follows its first invocation of the continuation.\<close>

fun labels :: "prog \<Rightarrow> string list" where
  "labels (Effect l p) = l # labels p"
| "labels p = []"

fun after_call :: "prog \<Rightarrow> prog" where
  "after_call (Effect l p) = after_call p"
| "after_call (CallNext p) = p"
| "after_call (TryNext h p) = p"
| "after_call p = p"

text \<open>
  \<^verbatim>\<open>const composer = new Composer(); composer.use(A); composer.use(B); composer.use(C)\<close>
\<close>

definition registered3 :: "MiddlewareFn \<Rightarrow> MiddlewareFn \<Rightarrow> MiddlewareFn \<Rightarrow> Composer" where
  "registered3 A B C =
     (let composer = new_Composer [];
          composer = snd (use composer [Fn A]);
          composer = snd (use composer [Fn B]);
          composer = snd (use composer [Fn C])
      in composer)"

section \<open>Example inputs\<close>

text \<open>A body that does not look at its argument.\<close>

definition always :: "'b \<Rightarrow> 'a \<Rightarrow> 'b" where
  "always p = (\<lambda>_. p)"

text \<open>A \<^verbatim>\<open>push\<close> event with an empty payload.\<close>

definition push_ctx :: Context where
  "push_ctx = \<lparr> eventName = ''push'', event = Map.empty \<rparr>"

text \<open>An \<^verbatim>\<open>issues\<close> event with the given action, and one whose payload has no \<^verbatim>\<open>action\<close>.\<close>

definition issues_ctx :: "string \<Rightarrow> Context" where
  "issues_ctx action = \<lparr> eventName = ''issues'', event = [''action'' \<mapsto> PStr action] \<rparr>"

definition bare_issues_ctx :: Context where
  "bare_issues_ctx = \<lparr> eventName = ''issues'', event = [''number'' \<mapsto> PNum 7] \<rparr>"

text \<open>A predicate and a router.\<close>

definition is_push :: "Context \<Rightarrow> bool" where
  "is_push c = (eventName c = ''push'')"





text \<open>A predicate or router whose evaluation is observed.\<close>

definition observed :: "string \<Rightarrow> (Context \<Rightarrow> 'a) \<Rightarrow> Context \<Rightarrow> 'a comp" where
  "observed name f = (\<lambda>c. bind (emit (Did name ''evaluated'')) (\<lambda>_. return (f c)))"

section \<open>Basic facts\<close>

lemmas comp_defs = return_def throw_def bind_def try_catch_def lift_def emit_def
  new_flag_def get_flag_def set_flag_def

lemmas eval_defs = handle_def run_def middleware_def errorBoundary_def Let_def use_def
  new_Composer_def concat_mw_def concat_next_def pass_def leaf_def errorBoundary_fn_def cont_def
  script_def handler_script_def start_def BotError_def generateBotErrorMessage_def always_def
  push_ctx_def double_next_Error_def comp_defs

lemma bind_return [simp]: "bind (return x) f = f x"
  by (simp add: bind_def return_def)

lemma bind_throw [simp]: "bind (throw e) f = throw e"
  by (simp add: bind_def throw_def)

lemma try_catch_throw [simp]: "try_catch (throw e) h = h e"
  by (simp add: try_catch_def throw_def)

lemma try_catch_return [simp]: "try_catch (return x) h = return x"
  by (simp add: try_catch_def return_def)

lemma throw_apply: "throw e s = (Inl e, s)"
  by (simp add: throw_def)

lemma return_apply: "return x s = (Inr x, s)"
  by (simp add: return_def)

lemma bind_emit: "bind (emit e) f s = f () (s\<lparr>trace := trace s @ [e]\<rparr>)"
  by (simp add: bind_def emit_def)

lemma bind_Inl: "m s = (Inl e, s') \<Longrightarrow> bind m f s = (Inl e, s')"
  by (simp add: bind_def)

lemma bind_Inr: "m s = (Inr x, s') \<Longrightarrow> bind m f s = f x s'"
  by (simp add: bind_def)

lemma bind_cong_state:
  assumes "m s = m' s" and "\<And>x s'. m s = (Inr x, s') \<Longrightarrow> f x s' = f' x s'"
  shows "bind m f s = bind m' f' s"
  using assms by (auto simp: bind_def split: prod.splits sum.splits)

lemma handler_new_Composer_Nil: "handler (new_Composer []) = pass"
  by (simp add: new_Composer_def)

lemma handler_new_Composer_single: "handler (new_Composer [mw]) = flatten mw"
  by (simp add: new_Composer_def)

lemma flatten_Obj_middleware: "flatten (Obj (middleware c)) = handler c"
  by (simp add: middleware_def)

lemma handler_use:
  "handler (snd (use this mws)) = concat_mw (handler this) (handler (new_Composer mws))"
  by (simp add: use_def Let_def middleware_def)

section \<open>Error normalization\<close>

lemma generateBotErrorMessage_cases:
  "generateBotErrorMessage (JError n m) = Inr (n @ '' in middleware: '' @ m)"
  "generateBotErrorMessage (JBotError m e c) = Inr (''BotError in middleware: '' @ m)"
  "generateBotErrorMessage (JString s) =
     Inr (''Non-error value of type string thrown in middleware: '' @ take 50 s)"
  "generateBotErrorMessage (JBoolean b) =
     Inr (''Non-error value of type boolean thrown in middleware: '' @ (if b then ''true'' else ''false''))"
  "generateBotErrorMessage (JNumber r) =
     Inr (''Non-error value of type number thrown in middleware: '' @ r)"
  "generateBotErrorMessage (JBigInt i) =
     Inr (''Non-error value of type bigint thrown in middleware: '' @ decimal i)"
  "generateBotErrorMessage JUndefined = Inr ''Non-error value of type undefined thrown in middleware!''"
  "generateBotErrorMessage JNull = Inr ''Non-error value of type object thrown in middleware!''"
  "generateBotErrorMessage JObject = Inr ''Non-error value of type object thrown in middleware!''"
  "generateBotErrorMessage JFunction = Inr ''Non-error value of type function thrown in middleware!''"
  by (simp_all add: generateBotErrorMessage_def)

lemma generateBotErrorMessage_examples:
  "generateBotErrorMessage (JError ''TypeError'' ''bad'') = Inr ''TypeError in middleware: bad''"
  "generateBotErrorMessage (JString ''nonerror'') =
     Inr ''Non-error value of type string thrown in middleware: nonerror''"
  by (simp_all add: generateBotErrorMessage_def)

text \<open>
  C8. The message of a thrown \<^verbatim>\<open>Error\<close>, of a string (cut to 50 characters), of a boolean,
  a number and a bigint (inlined) and of the other values (a generic marker) is as
  \<open>generateBotErrorMessage_cases\<close> says. A thrown symbol is not inlined: the template
  literal \<^verbatim>\<open>`: ${error}`\<close> of the \<^verbatim>\<open>symbol\<close> case throws a \<^verbatim>\<open>TypeError\<close>, so no message is
  produced for it.
\<close>

theorem generateBotErrorMessage_symbol:
  "generateBotErrorMessage (JSymbol d) = Inl symbol_TypeError"
  by (simp add: generateBotErrorMessage_def)

section \<open>Error boundaries\<close>

text \<open>
  What the boundary does with a value thrown in the guarded middleware, when the message of
  the dispatch error can be built: the flag is reset, the handler gets the dispatch error and
  \<open>cont\<close>, and the outer continuation runs when the flag is set after the handler returned.
\<close>

lemma errorBoundary_fn_caught:
  assumes "bound ctx (cont (length (flags s))) (s\<lparr>flags := flags s @ [False]\<rparr>) = (Inl err, s')"
    and "generateBotErrorMessage err = Inr msg"
  shows "errorBoundary_fn errorHandler bound ctx next s =
           bind (errorHandler (JBotError msg err ctx) (cont (length (flags s))))
             (\<lambda>_. bind (get_flag (length (flags s))) (\<lambda>called. if called then next else return ()))
             (s'\<lparr>flags := (flags s')[length (flags s) := False]\<rparr>)"
  using assms
  by (simp add: errorBoundary_fn_def BotError_def comp_defs)

text \<open>
  With a handler given by its body: after a caught value, the handler's observations are
  added, the flag tells whether the handler invoked its continuation, and then the handler's
  own throw leaves the boundary, or the outer continuation runs (the handler invoked its
  continuation), or the dispatch stops there.
\<close>

lemma cont_apply: "cont a s = (Inr (), s\<lparr>flags := (flags s)[a := True]\<rparr>)"
  by (simp add: cont_def bind_def set_flag_def return_def)

lemma bind_cont: "bind (cont a) f s = f () (s\<lparr>flags := (flags s)[a := True]\<rparr>)"
  by (simp add: bind_def cont_apply)

lemma exec_cont:
  "exec n p (cont a) s
   = (ends p, \<lparr> flags = (if invokes p then (flags s)[a := True] else flags s),
                trace = trace s @ seen n p \<rparr>)"
proof (induction p arbitrary: s)
  case Return
  show ?case by (simp add: return_apply)
next
  case (Effect l p)
  then show ?case by (simp add: bind_emit)
next
  case (Throw v)
  show ?case by (simp add: throw_apply)
next
  case (CallNext p)
  then show ?case by (simp add: bind_emit bind_cont)
next
  case (TryNext h p)
  have "try_catch (cont a) (\<lambda>_. exec n h (cont a)) = cont a"
    by (rule ext) (simp add: try_catch_def cont_apply)
  with TryNext show ?case by (simp add: bind_emit bind_cont)
qed

lemma errorBoundary_handler_decides:
  assumes "bound ctx (cont (length (flags s))) (s\<lparr>flags := flags s @ [False]\<rparr>) = (Inl err, s')"
    and "generateBotErrorMessage err = Inr msg"
    and "length (flags s) < length (flags s')"
  shows "errorBoundary_fn (handler_script h body) bound ctx next s
         = (let e = JBotError msg err ctx;
                after = \<lparr> flags = (flags s')[length (flags s) := invokes (body e)],
                          trace = trace s' @ Handling h e # seen h (body e) \<rparr>
            in case ends (body e) of
                 Inl thrown \<Rightarrow> (Inl thrown, after)
               | Inr _ \<Rightarrow> if invokes (body e) then next after else (Inr (), after))"
proof -
  let ?a = "length (flags s)"
  let ?e = "JBotError msg err ctx"
  let ?s1 = "s'\<lparr>flags := (flags s')[?a := False]\<rparr>"
  let ?after = "\<lparr> flags = (flags s')[?a := invokes (body ?e)],
                  trace = trace s' @ Handling h ?e # seen h (body ?e) \<rparr>"
  have h: "handler_script h body ?e (cont ?a) ?s1 = (ends (body ?e), ?after)"
    by (simp add: handler_script_def bind_emit exec_cont)
  have "bind (handler_script h body ?e (cont ?a))
          (\<lambda>_. bind (get_flag ?a) (\<lambda>called. if called then next else return ())) ?s1
        = (case ends (body ?e) of
             Inl thrown \<Rightarrow> (Inl thrown, ?after)
           | Inr _ \<Rightarrow> if invokes (body ?e) then next ?after else (Inr (), ?after))"
    using assms(3)
    by (cases "ends (body ?e)") (simp_all add: bind_def h get_flag_def return_def)
  then show ?thesis
    by (simp add: errorBoundary_fn_caught [where bound = bound and ctx = ctx and s = s,
          OF assms(1) assms(2)] Let_def)
qed

text \<open>
  C1. A middleware guarded by an error boundary throws a symbol: building the dispatch error
  throws a \<^verbatim>\<open>TypeError\<close> inside the \<^verbatim>\<open>catch\<close> block, the error handler (any handler) is never
  called, and the \<^verbatim>\<open>TypeError\<close> leaves the boundary and \<^verbatim>\<open>handle\<close>.
\<close>

theorem errorBoundary_symbol_escapes:
  "handle (snd (errorBoundary (new_Composer []) errorHandler
                  [Fn (script name (always (Throw (JSymbol d))))])) ctx start
   = (Inl symbol_TypeError, \<lparr> flags = [True, False], trace = [Started name] \<rparr>)"
  by (simp add: handle_def run_def middleware_def errorBoundary_def Let_def handler_use
      handler_new_Composer_Nil handler_new_Composer_single concat_mw_def concat_next_def
      pass_def leaf_def errorBoundary_fn_def script_def start_def BotError_def always_def
      generateBotErrorMessage_def comp_defs)

lemma double_next_message:
  "generateBotErrorMessage double_next_Error = Inr ''Error in middleware: `next` already called before!''"
  by (simp add: generateBotErrorMessage_def double_next_Error_def)

text \<open>
  C2, as stated, fails. The guarded chain is \<open>a\<close>, which awaits its continuation twice,
  followed by \<open>b\<close>. The error of the second invocation does not leave the boundary:
  \<^verbatim>\<open>handle\<close> returns normally, and the handler \<open>h\<close> received the error wrapped in a
  dispatch error.
\<close>

theorem double_next_caught_example:
  "handle (snd (errorBoundary (new_Composer []) (handler_script ''h'' (always Return))
                  [Fn (script ''a'' (always (CallNext (CallNext Return)))),
                   Fn (script ''b'' (always Return))])) push_ctx start
   = (Inr (),
      \<lparr> flags = [True, False, True],
        trace = [Started ''a'', Invoked ''a'', Started ''b'', Invoked ''a'',
                 Handling ''h'' (JBotError ''Error in middleware: `next` already called before!''
                                   double_next_Error push_ctx)] \<rparr>)"
  by (simp add: eval_defs)

text \<open>
  C2, amended. The error of a second invocation is an ordinary \<^verbatim>\<open>Error\<close>, and a boundary
  treats it as any other thrown value: when the guarded middleware ends by throwing it, the
  boundary resets its flag, hands the error, wrapped in a dispatch error with the context,
  to the error handler, and goes on to the outer continuation when the handler returned
  having invoked its continuation. Nothing of it leaves the boundary but what the handler
  (or the outer continuation) throws.
\<close>

theorem double_next_handed_to_handler:
  assumes "bound ctx (cont (length (flags s))) (s\<lparr>flags := flags s @ [False]\<rparr>)
           = (Inl double_next_Error, s')"
  shows "errorBoundary_fn errorHandler bound ctx next s =
           bind (errorHandler
                   (JBotError ''Error in middleware: `next` already called before!''
                      double_next_Error ctx)
                   (cont (length (flags s))))
             (\<lambda>_. bind (get_flag (length (flags s))) (\<lambda>called. if called then next else return ()))
             (s'\<lparr>flags := (flags s')[length (flags s) := False]\<rparr>)"
  by (rule errorBoundary_fn_caught [where bound = bound and ctx = ctx and s = s,
        OF assms double_next_message])

theorem double_next_handed_to_handler_witness:
  "handler (new_Composer [Fn (script ''a'' (always (CallNext (CallNext Return)))),
                          Fn (script ''b'' (always Return))])
     push_ctx (cont (length (flags start))) (start\<lparr>flags := flags start @ [False]\<rparr>)
   = (Inl double_next_Error,
      \<lparr> flags = [False, True],
        trace = [Started ''a'', Invoked ''a'', Started ''b'', Invoked ''a''] \<rparr>)
   \<and> errorBoundary_fn (handler_script ''h'' (always (CallNext Return)))
       (handler (new_Composer [Fn (script ''a'' (always (CallNext (CallNext Return)))),
                               Fn (script ''b'' (always Return))]))
       push_ctx leaf start
     = (Inr (),
        \<lparr> flags = [True, True],
          trace = [Started ''a'', Invoked ''a'', Started ''b'', Invoked ''a'',
                   Handling ''h'' (JBotError ''Error in middleware: `next` already called before!''
                                     double_next_Error push_ctx),
                   Invoked ''h''] \<rparr>)"
proof -
  let ?bound = "handler (new_Composer [Fn (script ''a'' (always (CallNext (CallNext Return)))),
                                       Fn (script ''b'' (always Return))])"
  let ?s' = "\<lparr> flags = [False, True],
               trace = [Started ''a'', Invoked ''a'', Started ''b'', Invoked ''a''] \<rparr>"
  have guarded: "?bound push_ctx (cont (length (flags start))) (start\<lparr>flags := flags start @ [False]\<rparr>)
                 = (Inl double_next_Error, ?s')"
    by (simp add: eval_defs)
  show ?thesis
    using guarded
      double_next_handed_to_handler [where bound = ?bound and ctx = push_ctx and s = start
        and errorHandler = "handler_script ''h'' (always (CallNext Return))" and ?next = leaf,
        OF guarded]
    by (simp add: handler_script_def always_def cont_def leaf_def start_def comp_defs)
qed

section \<open>The continuation of a concatenated pair\<close>

lemma flags_bind:
  assumes "\<And>s. flags (snd (m s)) = flags s" and "\<And>x s. flags (snd (f x s)) = flags s"
  shows "flags (snd (bind m f s)) = flags s"
proof (cases "m s")
  case (Pair r s')
  with assms(1) [of s] have "flags s' = flags s" by simp
  with Pair assms(2) show ?thesis by (cases r) (simp_all add: bind_def)
qed

lemma exec_throw_flags: "flags (snd (exec n p (throw e) s)) = flags s"
proof (induction p arbitrary: s)
  case (Effect l p)
  then show ?case by (simp add: bind_emit)
next
  case (TryNext h p)
  then show ?case by (simp add: bind_emit flags_bind)
qed (simp_all add: bind_emit return_apply throw_apply)

lemma concat_mw_apply:
  "concat_mw first andThen ctx next s
   = first ctx (concat_next (length (flags s)) andThen ctx next) (s\<lparr>flags := flags s @ [False]\<rparr>)"
  by (simp add: concat_mw_def bind_def new_flag_def)

lemma concat_next_flag_set:
  "flags s ! a \<Longrightarrow> concat_next a andThen ctx next s = (Inl double_next_Error, s)"
  by (simp add: concat_next_def bind_def get_flag_def throw_def)

lemma concat_next_flag_unset:
  "\<not> flags s ! a \<Longrightarrow>
   concat_next a andThen ctx next s = andThen ctx next (s\<lparr>flags := (flags s)[a := True]\<rparr>)"
  by (simp add: concat_next_def bind_def get_flag_def set_flag_def)

text \<open>
  Once the flag of the activation is set, the middleware runs as if its continuation were
  \<^verbatim>\<open>throw new Error('`next` already called before!')\<close>.
\<close>

lemma exec_after_flag_set:
  "flags s ! a \<Longrightarrow>
   exec n p (concat_next a andThen ctx next) s = exec n p (throw double_next_Error) s"
proof (induction p arbitrary: s)
  case (Effect l p)
  then show ?case by (simp add: bind_emit)
next
  case (CallNext p)
  then show ?case
    by (simp add: bind_emit concat_next_flag_set bind_Inl throw_apply)
next
  case (TryNext h p)
  let ?k = "concat_next a andThen ctx next"
  let ?s1 = "s\<lparr>trace := trace s @ [Invoked n]\<rparr>"
  have f1: "flags ?s1 ! a" using TryNext.prems by simp
  have h: "exec n h ?k ?s1 = exec n h (throw double_next_Error) ?s1"
    by (rule TryNext.IH(1) [OF f1])
  have t: "try_catch ?k (\<lambda>_. exec n h ?k) ?s1 = exec n h (throw double_next_Error) ?s1"
    using f1 h by (simp add: try_catch_def concat_next_flag_set)
  have "bind (try_catch ?k (\<lambda>_. exec n h ?k)) (\<lambda>_. exec n p ?k) ?s1
        = bind (exec n h (throw double_next_Error)) (\<lambda>_. exec n p (throw double_next_Error)) ?s1"
  proof (rule bind_cong_state)
    show "try_catch ?k (\<lambda>_. exec n h ?k) ?s1 = exec n h (throw double_next_Error) ?s1" by (rule t)
  next
    fix x s'
    assume "try_catch ?k (\<lambda>_. exec n h ?k) ?s1 = (Inr x, s')"
    with t have "exec n h (throw double_next_Error) ?s1 = (Inr x, s')" by simp
    then have "flags s' = flags ?s1"
      using exec_throw_flags [of n h double_next_Error ?s1] by simp
    with f1 have "flags s' ! a" by simp
    then show "exec n p ?k s' = exec n p (throw double_next_Error) s'" by (rule TryNext.IH(2))
  qed
  then show ?case by (simp add: bind_emit)
qed simp_all

lemma twice_then_successor:
  assumes "andThen ctx next (s\<lparr>flags := flags s @ [True], trace := trace s @ [Started n, Invoked n]\<rparr>)
           = (Inr (), s1)"
    and "flags s1 ! length (flags s)"
  shows "concat_mw (script n (always (CallNext (CallNext p)))) andThen ctx next s
         = (Inl double_next_Error, s1\<lparr>trace := trace s1 @ [Invoked n]\<rparr>)"
proof -
  let ?a = "length (flags s)"
  let ?K = "concat_next ?a andThen ctx next"
  let ?s2 = "s\<lparr>flags := flags s @ [False], trace := trace s @ [Started n, Invoked n]\<rparr>"
  have "?s2\<lparr>flags := (flags ?s2)[?a := True]\<rparr>
        = s\<lparr>flags := flags s @ [True], trace := trace s @ [Started n, Invoked n]\<rparr>"
    by simp
  with assms(1) have run: "andThen ctx next (?s2\<lparr>flags := (flags ?s2)[?a := True]\<rparr>) = (Inr (), s1)"
    by (simp only:)
  have unset: "\<not> flags ?s2 ! ?a" by simp
  have first: "?K ?s2 = (Inr (), s1)"
    by (rule trans [OF concat_next_flag_unset
          [where andThen = andThen and ctx = ctx and ?next = "next", OF unset] run])
  have second: "?K (s1\<lparr>trace := trace s1 @ [Invoked n]\<rparr>)
                = (Inl double_next_Error, s1\<lparr>trace := trace s1 @ [Invoked n]\<rparr>)"
    using assms(2) by (simp add: concat_next_flag_set)
  have e1: "bind (emit (Invoked n)) (\<lambda>_. bind ?K (\<lambda>_. exec n p ?K)) s1
            = (Inl double_next_Error, s1\<lparr>trace := trace s1 @ [Invoked n]\<rparr>)"
    by (simp add: bind_emit bind_Inl [where m = ?K, OF second])
  have "bind ?K (\<lambda>_. bind (emit (Invoked n)) (\<lambda>_. bind ?K (\<lambda>_. exec n p ?K))) ?s2
        = (Inl double_next_Error, s1\<lparr>trace := trace s1 @ [Invoked n]\<rparr>)"
    by (simp add: bind_Inr [where m = ?K and s = ?s2, OF first] e1)
  then have "exec n (CallNext (CallNext p)) ?K
          (s\<lparr>flags := flags s @ [False], trace := trace s @ [Started n]\<rparr>)
        = (Inl double_next_Error, s1\<lparr>trace := trace s1 @ [Invoked n]\<rparr>)"
    by (simp add: bind_emit)
  then show ?thesis
    by (simp add: concat_mw_apply script_def always_def bind_emit)
qed

text \<open>
  C3, as stated, fails: the guard is in \<^verbatim>\<open>concat\<close> only. A composer built from one
  middleware has that middleware as its handler, and \<^verbatim>\<open>handle\<close> gives it \<^verbatim>\<open>leaf\<close>, which can
  be invoked any number of times; the same holds for the last middleware registered with
  \<^verbatim>\<open>use\<close>. Here \<open>a\<close> awaits its continuation twice and \<^verbatim>\<open>handle\<close> returns normally.
\<close>

theorem last_middleware_unguarded_example:
  "handle (new_Composer [Fn (script ''a'' (always (CallNext (CallNext Return))))]) push_ctx start
   = (Inr (), \<lparr> flags = [], trace = [Started ''a'', Invoked ''a'', Invoked ''a''] \<rparr>)
   \<and> handle (snd (use (new_Composer []) [Fn (script ''a'' (always (CallNext (CallNext Return))))]))
       push_ctx start
     = (Inr (), \<lparr> flags = [True], trace = [Started ''a'', Invoked ''a'', Invoked ''a''] \<rparr>)"
  by (simp add: eval_defs)

text \<open>
  C3, amended. For a middleware that is followed by another one (the first of a pair made
  by \<^verbatim>\<open>concat\<close>): every activation has a flag of its own, initially unset; an invocation of
  the continuation that finds the flag unset sets it and runs the second middleware with
  the outer continuation; an invocation that finds the flag set throws the \<^verbatim>\<open>Error\<close> with
  the message \<^verbatim>\<open>`next` already called before!\<close>, and from then on the whole rest of the
  first middleware runs as if its continuation did nothing but throw that error. So a
  middleware that awaits its continuation twice, followed by one that returns normally (and
  leaves the flag alone, as it must: the variable is not in its scope), fails with that
  error at the second invocation.
\<close>

theorem concat_continuation_once:
  "concat_mw first andThen ctx next s
   = first ctx (concat_next (length (flags s)) andThen ctx next) (s\<lparr>flags := flags s @ [False]\<rparr>)
   \<and> (\<not> flags s1 ! a \<longrightarrow>
        concat_next a andThen ctx next s1
        = andThen ctx next (s1\<lparr>flags := (flags s1)[a := True]\<rparr>))
   \<and> (flags s2 ! a \<longrightarrow>
        concat_next a andThen ctx next s2 = (Inl double_next_Error, s2)
        \<and> exec n p (concat_next a andThen ctx next) s2 = exec n p (throw double_next_Error) s2)
   \<and> (andThen ctx next (s\<lparr>flags := flags s @ [True], trace := trace s @ [Started n, Invoked n]\<rparr>)
        = (Inr (), s3) \<and> flags s3 ! length (flags s) \<longrightarrow>
        concat_mw (script n (always (CallNext (CallNext p)))) andThen ctx next s
        = (Inl double_next_Error, s3\<lparr>trace := trace s3 @ [Invoked n]\<rparr>))"
proof (intro conjI impI)
  show "concat_mw first andThen ctx next s
        = first ctx (concat_next (length (flags s)) andThen ctx next) (s\<lparr>flags := flags s @ [False]\<rparr>)"
    by (rule concat_mw_apply)
next
  assume "\<not> flags s1 ! a"
  then show "concat_next a andThen ctx next s1
             = andThen ctx next (s1\<lparr>flags := (flags s1)[a := True]\<rparr>)"
    by (rule concat_next_flag_unset)
next
  assume "flags s2 ! a"
  then show "concat_next a andThen ctx next s2 = (Inl double_next_Error, s2)"
    by (rule concat_next_flag_set)
next
  assume "flags s2 ! a"
  then show "exec n p (concat_next a andThen ctx next) s2 = exec n p (throw double_next_Error) s2"
    by (rule exec_after_flag_set)
next
  assume "andThen ctx next (s\<lparr>flags := flags s @ [True], trace := trace s @ [Started n, Invoked n]\<rparr>)
          = (Inr (), s3) \<and> flags s3 ! length (flags s)"
  then show "concat_mw (script n (always (CallNext (CallNext p)))) andThen ctx next s
             = (Inl double_next_Error, s3\<lparr>trace := trace s3 @ [Invoked n]\<rparr>)"
    by (intro twice_then_successor) simp_all
qed

theorem concat_continuation_once_witness:
  "handle (new_Composer [Fn (script ''a'' (always (CallNext (CallNext Return)))),
                         Fn (script ''b'' (always Return))]) push_ctx start
   = (Inl double_next_Error,
      \<lparr> flags = [True], trace = [Started ''a'', Invoked ''a'', Started ''b'', Invoked ''a''] \<rparr>)
   \<and> \<not> flags \<lparr> flags = [False], trace = [] \<rparr> ! 0
   \<and> concat_next 0 (script ''b'' (always Return)) push_ctx leaf \<lparr> flags = [False], trace = [] \<rparr>
     = (Inr (), \<lparr> flags = [True], trace = [Started ''b''] \<rparr>)
   \<and> flags \<lparr> flags = [True], trace = [] \<rparr> ! 0
   \<and> concat_next 0 (script ''b'' (always Return)) push_ctx leaf \<lparr> flags = [True], trace = [] \<rparr>
     = (Inl double_next_Error, \<lparr> flags = [True], trace = [] \<rparr>)
   \<and> exec ''a'' (CallNext Return) (concat_next 0 (script ''b'' (always Return)) push_ctx leaf)
       \<lparr> flags = [True], trace = [] \<rparr>
     = (Inl double_next_Error, \<lparr> flags = [True], trace = [Invoked ''a''] \<rparr>)"
  using concat_continuation_once [where first = "script ''a'' (always (CallNext (CallNext Return)))"
      and andThen = "script ''b'' (always Return)" and ctx = push_ctx and ?next = leaf
      and s = start and a = 0 and ?s1.0 = "\<lparr> flags = [False], trace = [] \<rparr>"
      and ?s2.0 = "\<lparr> flags = [True], trace = [] \<rparr>" and n = "''a''" and p = "CallNext Return"
      and ?s3.0 = "\<lparr> flags = [True], trace = [Started ''a'', Invoked ''a'', Started ''b''] \<rparr>"]
  by (simp add: eval_defs)

section \<open>Deferred selection and the combinators built on it\<close>

lemma bind_assoc: "bind (bind m f) g = bind m (\<lambda>x. bind (f x) g)"
  by (rule ext) (simp add: bind_def split: prod.splits sum.splits)

lemma handler_lazy:
  "handler (snd (lazy this factory)) = concat_mw (handler this) (lazy_fn factory)"
  by (simp add: lazy_def handler_use handler_new_Composer_single)

lemma lazy_fn_apply:
  "lazy_fn factory ctx next = bind (factory ctx) (\<lambda>mw. handler (new_Composer (toArray mw)) ctx next)"
  by (simp add: lazy_fn_def Let_def middleware_def)

lemma lazy_fn_branch:
  "lazy_fn (branch_factory predicate T F) ctx next
   = bind (predicate ctx) (\<lambda>b. handler (new_Composer (toArray (if b then T else F))) ctx next)"
  by (simp add: lazy_fn_apply branch_factory_def bind_assoc)

lemma handler_branch:
  "handler (snd (branch this predicate T F))
   = concat_mw (handler this) (lazy_fn (branch_factory predicate T F))"
  by (simp add: branch_def handler_lazy)

lemma filter_fn_apply:
  "lazy_fn (branch_factory predicate (Single (Obj (middleware composer))) (Single (Fn pass))) ctx next
   = bind (predicate ctx) (\<lambda>b. if b then handler composer ctx next else next)"
proof -
  have "\<And>b. handler (new_Composer (toArray (if b then Single (Obj (middleware composer)) else Single (Fn pass)))) ctx next
            = (if b then handler composer ctx next else next)"
    by (simp add: handler_new_Composer_single middleware_def pass_def)
  then show ?thesis by (simp add: lazy_fn_branch)
qed

lemma handler_filter_mw:
  "handler (snd (filter_mw this predicate mws))
   = concat_mw (handler this)
       (\<lambda>ctx next. bind (predicate ctx) (\<lambda>b. if b then handler (new_Composer mws) ctx next else next))"
proof -
  have "lazy_fn (branch_factory predicate (Single (Obj (middleware (new_Composer mws)))) (Single (Fn pass)))
        = (\<lambda>ctx next. bind (predicate ctx) (\<lambda>b. if b then handler (new_Composer mws) ctx next else next))"
    by (intro ext) (simp add: filter_fn_apply)
  then show ?thesis by (simp add: filter_mw_def Let_def handler_branch)
qed

lemma fst_filter_mw: "fst (filter_mw this predicate mws) = new_Composer mws"
  by (simp add: filter_mw_def Let_def)



lemma handler_on:
  "handler (snd (on this filter_arg mws))
   = concat_mw (handler this)
       (\<lambda>ctx next. if on_predicate filter_arg ctx then handler (new_Composer mws) ctx next else next)"
  by (simp add: on_def on_test_def handler_filter_mw)

lemma on_predicate_push: "on_predicate (Single ''push'') c = (eventName c = ''push'')"
  by (auto simp add: on_predicate_def query_matches_def)

lemma on_predicate_issues_opened:
  "on_predicate (Single ''issues.opened'') c
   = (eventName c = ''issues'' \<and> event c ''action'' = Some (PStr ''opened''))"
  by (auto simp add: on_predicate_def query_matches_def)

lemma on_predicate_Array:
  "on_predicate (Array qs) c = (\<exists>q\<in>set qs. on_predicate (Single q) c)"
  by (simp add: on_predicate_def list_ex_iff)

lemma split_on_dot:
  "sep \<in> set q \<Longrightarrow> \<exists>e a rest. split_on sep q = e # a # rest"
proof (induction q)
  case Nil
  then show ?case by simp
next
  case (Cons x xs)
  show ?case
  proof (cases "x = sep")
    case True
    then show ?thesis by (cases xs) (auto split: list.splits)
  next
    case False
    with Cons obtain e a rest where "split_on sep xs = e # a # rest" by auto
    with False show ?thesis by simp
  qed
qed

lemma split_on_not_Nil: "split_on sep q \<noteq> []"
  by (induction q) (auto split: list.splits)

lemma query_matches_no_action:
  assumes "event c ''action'' = None" and "CHR ''.'' \<in> set q"
  shows "\<not> query_matches c q"
proof -
  from split_on_dot [OF assms(2)] obtain e a rest
    where "split_on (CHR ''.'') q = e # a # rest" by blast
  with assms(1) show ?thesis by (simp add: query_matches_def)
qed

lemma split_on_no_sep: "sep \<notin> set e \<Longrightarrow> split_on sep e = [e]"
  by (induction e) auto

lemma split_on_first: "sep \<notin> set e \<Longrightarrow> split_on sep (e @ sep # r) = e # split_on sep r"
  by (induction e) auto

lemma fst_on: "fst (on this filter_arg mws) = new_Composer mws"
  by (simp add: on_def fst_filter_mw)

lemma query_matches_event:
  "CHR ''.'' \<notin> set e \<Longrightarrow> query_matches c e = (eventName c = e)"
  by (auto simp add: query_matches_def split_on_no_sep)

lemma query_matches_event_action:
  assumes "CHR ''.'' \<notin> set e" and "CHR ''.'' \<notin> set a"
  shows "query_matches c (e @ ''.'' @ a)
         = (eventName c = e \<and> event c ''action'' = Some (PStr a))"
  using assms by (auto simp add: query_matches_def split_on_first split_on_no_sep)

lemma on_predicate_event:
  "CHR ''.'' \<notin> set e \<Longrightarrow> on_predicate (Single e) c = (eventName c = e)"
  by (simp add: on_predicate_def query_matches_event)

lemma on_predicate_event_action:
  "CHR ''.'' \<notin> set e \<and> CHR ''.'' \<notin> set a \<Longrightarrow>
   on_predicate (Single (e @ ''.'' @ a)) c
   = (eventName c = e \<and> event c ''action'' = Some (PStr a))"
  using query_matches_event_action [of e a c] by (simp add: on_predicate_def)

text \<open>
  C4. The child that \<^verbatim>\<open>on\<close> returns is the composer of the given middleware, and what
  \<^verbatim>\<open>on\<close> appends to the parent runs the child's handler when the query matches the context
  and is the pass-through otherwise. The query \<^verbatim>\<open>push\<close> matches iff the event name is
  \<^verbatim>\<open>push\<close>; \<^verbatim>\<open>issues.opened\<close> matches iff the event name is \<^verbatim>\<open>issues\<close> and the payload's
  \<^verbatim>\<open>action\<close> is \<^verbatim>\<open>opened\<close>; the same holds for every event name and action without a
  dot; an array of queries matches iff one of them does.
\<close>

theorem on_runs_iff_match:
  "fst (on this filter_arg mws) = new_Composer mws
   \<and> handler (snd (on this filter_arg mws))
       = concat_mw (handler this)
           (\<lambda>ctx next. if on_predicate filter_arg ctx
                        then handler (new_Composer mws) ctx next else next)
   \<and> on_predicate (Single ''push'') c = (eventName c = ''push'')
   \<and> on_predicate (Single ''issues.opened'') c
       = (eventName c = ''issues'' \<and> event c ''action'' = Some (PStr ''opened''))
   \<and> (CHR ''.'' \<notin> set e \<longrightarrow> on_predicate (Single e) c = (eventName c = e))
   \<and> (CHR ''.'' \<notin> set e \<and> CHR ''.'' \<notin> set a \<longrightarrow>
        on_predicate (Single (e @ ''.'' @ a)) c
        = (eventName c = e \<and> event c ''action'' = Some (PStr a)))
   \<and> on_predicate (Array qs) c = (\<exists>q\<in>set qs. on_predicate (Single q) c)"
  by (intro conjI impI fst_on handler_on on_predicate_push on_predicate_issues_opened
      on_predicate_event on_predicate_event_action on_predicate_Array) simp_all

theorem on_runs_iff_match_witness:
  "handle (snd (on (new_Composer []) (Array [''push'', ''issues.opened''])
                  [Fn (script ''m'' (always Return))])) push_ctx start
   = (Inr (), \<lparr> flags = [True], trace = [Started ''m''] \<rparr>)
   \<and> handle (snd (on (new_Composer []) (Array [''push'', ''issues.opened''])
                    [Fn (script ''m'' (always Return))])) (issues_ctx ''opened'') start
     = (Inr (), \<lparr> flags = [True], trace = [Started ''m''] \<rparr>)
   \<and> handle (snd (on (new_Composer []) (Array [''push'', ''issues.opened''])
                    [Fn (script ''m'' (always Return))])) (issues_ctx ''closed'') start
     = (Inr (), \<lparr> flags = [True], trace = [] \<rparr>)"
  using on_runs_iff_match [where this = "new_Composer []"
      and filter_arg = "Array [''push'', ''issues.opened'']"
      and mws = "[Fn (script ''m'' (always Return))]" and c = push_ctx
      and qs = "[''push'', ''issues.opened'']" and e = "''issues''" and a = "''opened''"]
    on_runs_iff_match [where this = "new_Composer []"
      and filter_arg = "Array [''push'', ''issues.opened'']"
      and mws = "[Fn (script ''m'' (always Return))]" and c = "issues_ctx ''opened''"
      and qs = "[''push'', ''issues.opened'']" and e = "''issues''" and a = "''opened''"]
    on_runs_iff_match [where this = "new_Composer []"
      and filter_arg = "Array [''push'', ''issues.opened'']"
      and mws = "[Fn (script ''m'' (always Return))]" and c = "issues_ctx ''closed''"
      and qs = "[''push'', ''issues.opened'']" and e = "''issues''" and a = "''opened''"]
  by (simp add: handle_def run_def middleware_def handler_new_Composer_Nil
      handler_new_Composer_single concat_mw_def concat_next_def pass_def leaf_def script_def
      start_def always_def push_ctx_def issues_ctx_def on_predicate_def query_matches_def comp_defs)

lemma on_fn_apply:
  "lazy_fn (branch_factory (on_test filter_arg) (Single (Obj (middleware (new_Composer mws))))
              (Single (Fn pass))) ctx next
   = (if on_predicate filter_arg ctx then handler (new_Composer mws) ctx next else next)"
  by (simp add: filter_fn_apply on_test_def)

lemma handler_on_fn:
  "handler (snd (on this filter_arg mws))
   = concat_mw (handler this)
       (lazy_fn (branch_factory (on_test filter_arg) (Single (Obj (middleware (new_Composer mws))))
                   (Single (Fn pass))))"
  by (simp add: on_def filter_mw_def Let_def handler_branch)

lemma no_action_no_match:
  assumes "''action'' \<notin> dom (event c)"
    and "\<forall>q\<in>set (toArray filter_arg). CHR ''.'' \<in> set q"
  shows "\<not> on_predicate filter_arg c"
proof -
  from assms(1) have none: "event c ''action'' = None" by (simp add: domIff)
  show ?thesis
    using assms(2) query_matches_no_action [OF none]
    by (auto simp add: on_predicate_def list_ex_iff)
qed

lemma on_skipped_continuation:
  assumes "\<not> on_predicate filter_arg c"
  shows "handler (snd (on this filter_arg mws)) c next s
         = handler this c
             (\<lambda>s1. if flags s1 ! length (flags s) then (Inl double_next_Error, s1)
                    else next (s1\<lparr>flags := (flags s1)[length (flags s) := True]\<rparr>))
             (s\<lparr>flags := flags s @ [False]\<rparr>)"
proof -
  have "concat_next (length (flags s))
          (\<lambda>ctx next. if on_predicate filter_arg ctx
                       then handler (new_Composer mws) ctx next else next) c next
        = (\<lambda>s1. if flags s1 ! length (flags s) then (Inl double_next_Error, s1)
                 else next (s1\<lparr>flags := (flags s1)[length (flags s) := True]\<rparr>))"
    using assms by (intro ext) (simp add: concat_next_def comp_defs)
  then show ?thesis by (simp add: handler_on concat_mw_apply)
qed

lemma on_skipped_then_use:
  assumes "\<not> on_predicate filter_arg c"
  shows "handle (snd (use (snd (on (new_Composer []) filter_arg mws)) [Fn following])) c start
         = following c leaf \<lparr> flags = [True, True], trace = [] \<rparr>"
  using assms
  by (simp add: handle_def run_def middleware_def handler_use handler_on handler_new_Composer_Nil
      handler_new_Composer_single concat_mw_def concat_next_def pass_def start_def comp_defs)

text \<open>
  C10. When the payload has no \<^verbatim>\<open>action\<close> field and every query has an action qualifier:
  the test of \<^verbatim>\<open>on\<close> returns \<^verbatim>\<open>false\<close> without throwing and without an effect; the
  middleware that \<^verbatim>\<open>on\<close> registered on the parent then does nothing but invoke its
  continuation, so the child is skipped; the first time the parent's earlier middleware
  invokes its continuation, the continuation behind \<^verbatim>\<open>on\<close> runs; and a middleware registered
  with \<^verbatim>\<open>use\<close> after \<^verbatim>\<open>on\<close> on a new composer runs exactly as if the dispatch had reached it
  directly.
\<close>

theorem on_without_action_field:
  assumes "''action'' \<notin> dom (event c)"
    and "\<forall>q\<in>set (toArray filter_arg). CHR ''.'' \<in> set q"
  shows "on_test filter_arg c s = (Inr False, s)
         \<and> handler (snd (on this filter_arg mws))
           = concat_mw (handler this)
               (lazy_fn (branch_factory (on_test filter_arg)
                           (Single (Obj (middleware (new_Composer mws)))) (Single (Fn pass))))
         \<and> lazy_fn (branch_factory (on_test filter_arg)
                      (Single (Obj (middleware (new_Composer mws)))) (Single (Fn pass))) c next s
           = next s
         \<and> handler (snd (on this filter_arg mws)) c next s
           = handler this c
               (\<lambda>s1. if flags s1 ! length (flags s) then (Inl double_next_Error, s1)
                      else next (s1\<lparr>flags := (flags s1)[length (flags s) := True]\<rparr>))
               (s\<lparr>flags := flags s @ [False]\<rparr>)
         \<and> handle (snd (use (snd (on (new_Composer []) filter_arg mws)) [Fn following])) c start
           = following c leaf \<lparr> flags = [True, True], trace = [] \<rparr>"
proof -
  have no: "\<not> on_predicate filter_arg c"
    by (rule no_action_no_match [OF assms])
  have "on_test filter_arg c s = (Inr False, s)"
    using no by (simp add: on_test_def return_apply)
  moreover have "lazy_fn (branch_factory (on_test filter_arg)
                      (Single (Obj (middleware (new_Composer mws)))) (Single (Fn pass))) c next s
                 = next s"
    using no by (simp add: on_fn_apply)
  ultimately show ?thesis
    using on_skipped_continuation [OF no] on_skipped_then_use [OF no] handler_on_fn
    by simp
qed

theorem on_without_action_field_witness:
  "''action'' \<notin> dom (event bare_issues_ctx)
   \<and> list_all (\<lambda>q. CHR ''.'' \<in> set q) (toArray (Single ''issues.opened''))
   \<and> on_test (Single ''issues.opened'') bare_issues_ctx start = (Inr False, start)
   \<and> handle (snd (use (snd (on (new_Composer []) (Single ''issues.opened'')
                                [Fn (script ''m'' (always (CallNext Return)))]))
                     [Fn (script ''z'' (always (Effect ''reached'' Return)))]))
        bare_issues_ctx start
     = (Inr (), \<lparr> flags = [True, True], trace = [Started ''z'', Did ''z'' ''reached''] \<rparr>)
   \<and> handle (snd (use (snd (on (new_Composer [Fn (script ''a'' (always (CallNext Return)))])
                                (Single ''issues.opened'')
                                [Fn (script ''m'' (always (CallNext Return)))]))
                     [Fn (script ''z'' (always (Effect ''reached'' Return)))]))
        bare_issues_ctx start
     = (Inr (),
        \<lparr> flags = [True, True],
          trace = [Started ''a'', Invoked ''a'', Started ''z'', Did ''z'' ''reached''] \<rparr>)"
proof -
  let ?m = "[Fn (script ''m'' (always (CallNext Return)))]"
  let ?z = "script ''z'' (always (Effect ''reached'' Return))"
  let ?after = "\<lparr> flags = [True, True], trace = [] \<rparr>"
  have h1: "''action'' \<notin> dom (event bare_issues_ctx)"
    by (simp add: bare_issues_ctx_def)
  have h2: "\<forall>q\<in>set (toArray (Single ''issues.opened'')). CHR ''.'' \<in> set q"
    by simp
  note inst = on_without_action_field [OF h1 h2, where s = start
      and this = "new_Composer [Fn (script ''a'' (always (CallNext Return)))]"
      and mws = ?m and ?next = leaf and following = ?z]
  have test: "on_test (Single ''issues.opened'') bare_issues_ctx start = (Inr False, start)"
    by (rule inst [THEN conjunct1])
  have reached: "handle (snd (use (snd (on (new_Composer []) (Single ''issues.opened'') ?m)) [Fn ?z]))
                   bare_issues_ctx start
                 = ?z bare_issues_ctx leaf ?after"
    by (rule inst [THEN conjunct2, THEN conjunct2, THEN conjunct2, THEN conjunct2])
  have z: "?z bare_issues_ctx leaf ?after
           = (Inr (), \<lparr> flags = [True, True], trace = [Started ''z'', Did ''z'' ''reached''] \<rparr>)"
    by (simp add: script_def always_def bind_emit return_apply)
  have first: "handle (snd (use (snd (on (new_Composer []) (Single ''issues.opened'') ?m)) [Fn ?z]))
                 bare_issues_ctx start
               = (Inr (), \<lparr> flags = [True, True], trace = [Started ''z'', Did ''z'' ''reached''] \<rparr>)"
    by (rule trans [OF reached z])
  have no: "\<not> on_predicate (Single ''issues.opened'') bare_issues_ctx"
    by (simp add: on_predicate_def query_matches_def bare_issues_ctx_def)
  have second: "handle (snd (use (snd (on (new_Composer [Fn (script ''a'' (always (CallNext Return)))])
                                (Single ''issues.opened'') ?m)) [Fn ?z]))
                  bare_issues_ctx start
                = (Inr (),
                   \<lparr> flags = [True, True],
                     trace = [Started ''a'', Invoked ''a'', Started ''z'', Did ''z'' ''reached''] \<rparr>)"
    using no
    by (simp add: handle_def run_def middleware_def handler_use handler_on
        handler_new_Composer_single concat_mw_def concat_next_def pass_def leaf_def script_def
        start_def always_def comp_defs)
  show ?thesis
    using h1 test first second by simp
qed










text \<open>
  C6. In a dispatch that reaches what \<^verbatim>\<open>branch\<close> appended to the parent, the predicate is
  evaluated once, on the state the dispatch is in, and when it yields \<open>b\<close> the handler of
  the composer built from the selected set (the first for true, the second for false) runs
  from the state the predicate left. The other set is not used: replacing it changes
  nothing of the result, the flags included.
\<close>

theorem branch_runs_selected:
  assumes "predicate ctx s = (Inr b, s')"
  shows "handler (snd (branch this predicate T F))
           = concat_mw (handler this) (lazy_fn (branch_factory predicate T F))
         \<and> lazy_fn (branch_factory predicate T F) ctx next s
           = handler (new_Composer (toArray (if b then T else F))) ctx next s'
         \<and> (b \<longrightarrow> lazy_fn (branch_factory predicate T F) ctx next s
                   = lazy_fn (branch_factory predicate T F') ctx next s)
         \<and> (\<not> b \<longrightarrow> lazy_fn (branch_factory predicate T F) ctx next s
                     = lazy_fn (branch_factory predicate T' F) ctx next s)"
  using assms by (simp add: handler_branch lazy_fn_branch bind_Inr)

theorem branch_runs_selected_witness:
  "observed ''p'' is_push push_ctx start
   = (Inr True, \<lparr> flags = [], trace = [Did ''p'' ''evaluated''] \<rparr>)
   \<and> handle (snd (branch (new_Composer []) (observed ''p'' is_push)
                     (Array [Fn (script ''t1'' (always (CallNext Return))),
                             Fn (script ''t2'' (always (CallNext Return)))])
                     (Single (Fn (script ''f'' (always Return)))))) push_ctx start
     = (Inr (),
        \<lparr> flags = [True, True],
          trace = [Did ''p'' ''evaluated'', Started ''t1'', Invoked ''t1'',
                   Started ''t2'', Invoked ''t2''] \<rparr>)
   \<and> handle (snd (branch (new_Composer []) (observed ''p'' is_push)
                     (Array [Fn (script ''t1'' (always (CallNext Return))),
                             Fn (script ''t2'' (always (CallNext Return)))])
                     (Single (Fn (script ''f'' (always Return)))))) (issues_ctx ''opened'') start
     = (Inr (), \<lparr> flags = [True], trace = [Did ''p'' ''evaluated'', Started ''f''] \<rparr>)"
proof -
  have p1: "observed ''p'' is_push push_ctx start
            = (Inr True, \<lparr> flags = [], trace = [Did ''p'' ''evaluated''] \<rparr>)"
    by (simp add: observed_def is_push_def push_ctx_def start_def bind_emit return_apply)
  have p2: "observed ''p'' is_push (issues_ctx ''opened'') \<lparr> flags = [True], trace = [] \<rparr>
            = (Inr False, \<lparr> flags = [True], trace = [Did ''p'' ''evaluated''] \<rparr>)"
    by (simp add: observed_def is_push_def issues_ctx_def bind_emit return_apply)
  show ?thesis
    using p1
      branch_runs_selected [where predicate = "observed ''p'' is_push" and ctx = push_ctx
        and s = start and this = "new_Composer []"
        and T = "Array [Fn (script ''t1'' (always (CallNext Return))),
                        Fn (script ''t2'' (always (CallNext Return)))]"
        and F = "Single (Fn (script ''f'' (always Return)))"
        and F' = "Single (Fn pass)" and T' = "Single (Fn pass)" and ?next = leaf, OF p1]
      branch_runs_selected [where predicate = "observed ''p'' is_push" and ctx = "issues_ctx ''opened''"
        and s = "\<lparr> flags = [True], trace = [] \<rparr>" and this = "new_Composer []"
        and T = "Array [Fn (script ''t1'' (always (CallNext Return))),
                        Fn (script ''t2'' (always (CallNext Return)))]"
        and F = "Single (Fn (script ''f'' (always Return)))"
        and F' = "Single (Fn pass)" and T' = "Single (Fn pass)" and ?next = leaf, OF p2]
    by (simp add: handle_def run_def middleware_def handler_new_Composer_Nil new_Composer_def
        concat_mw_def concat_next_def pass_def leaf_def script_def start_def always_def
        lazy_fn_branch observed_def is_push_def push_ctx_def issues_ctx_def comp_defs)
qed










section \<open>Order of execution\<close>

lemma precedes_append_mem: "precedes x y tr \<Longrightarrow> x \<in> set tr \<Longrightarrow> precedes x y (tr @ extra)"
  by (induction tr) (simp_all split: if_splits)

lemma precedes_snoc: "precedes x y tr \<Longrightarrow> e \<noteq> y \<Longrightarrow> precedes x y (tr @ [e])"
  by (induction tr) (simp_all split: if_splits)

lemma precedes_snoc_first: "precedes x y tr \<Longrightarrow> precedes x y (tr @ [x])"
  by (induction tr) (simp_all split: if_splits)

lemma precedes_trans: "precedes x y tr \<Longrightarrow> precedes y z tr \<Longrightarrow> precedes x z tr"
  by (induction tr) (simp_all split: if_splits)

lemma precedes_absent: "precedes x y tr \<Longrightarrow> x \<notin> set tr \<Longrightarrow> y \<notin> set tr"
  by (induction tr) (simp_all split: if_splits)

lemma precedes_iff:
  "x \<noteq> y \<Longrightarrow> precedes x y tr \<longleftrightarrow> (\<forall>i<length tr. tr ! i = y \<longrightarrow> (\<exists>j<i. tr ! j = x))"
proof (induction tr)
  case Nil
  then show ?case by simp
next
  case (Cons e es)
  show ?case
  proof (cases "e = x")
    case True
    then show ?thesis using Cons.prems by (auto simp: nth_Cons split: nat.splits)
  next
    case False
    show ?thesis
    proof (cases "e = y")
      case True
      with False show ?thesis by auto
    next
      case ney: False
      have "(\<forall>i<length (e # es). (e # es) ! i = y \<longrightarrow> (\<exists>j<i. (e # es) ! j = x))
            \<longleftrightarrow> (\<forall>i<length es. es ! i = y \<longrightarrow> (\<exists>j<i. es ! j = x))" (is "?L \<longleftrightarrow> ?R")
      proof
        assume L: ?L
        show ?R
        proof (intro allI impI)
          fix i assume "i < length es" "es ! i = y"
          with L [rule_format, of "Suc i"] obtain j where j: "j < Suc i" "(e # es) ! j = x" by auto
          with False obtain j' where "j = Suc j'" by (cases j) auto
          with j show "\<exists>j<i. es ! j = x" by auto
        qed
      next
        assume R: ?R
        show ?L
        proof (intro allI impI)
          fix i assume i: "i < length (e # es)" "(e # es) ! i = y"
          with ney obtain i' where i': "i = Suc i'" by (cases i) auto
          with i R [rule_format, of i'] obtain j where "j < i'" "es ! j = x" by auto
          then have "Suc j < i \<and> (e # es) ! Suc j = x" using i' by simp
          then show "\<exists>j<i. (e # es) ! j = x" by blast
        qed
      qed
      with False ney Cons show ?thesis by simp
    qed
  qed
qed

lemma extendsI: "(\<And>s. \<exists>extra. trace (snd (c s)) = trace s @ extra) \<Longrightarrow> extends c"
  by (simp add: extends_def)

lemma extendsD: "extends c \<Longrightarrow> \<exists>extra. trace (snd (c s)) = trace s @ extra"
  by (simp add: extends_def)

lemma extends_return: "extends (return x)"
  by (simp add: extends_def return_def)

lemma extends_throw: "extends (throw e)"
  by (simp add: extends_def throw_def)

lemma extends_emit: "extends (emit e)"
  by (simp add: extends_def emit_def)

lemma extends_new_flag: "extends new_flag"
  by (simp add: extends_def new_flag_def)

lemma extends_get_flag: "extends (get_flag a)"
  by (simp add: extends_def get_flag_def)

lemma extends_set_flag: "extends (set_flag a b)"
  by (simp add: extends_def set_flag_def)

lemma extends_bind:
  assumes "extends m" and "\<And>x. extends (f x)"
  shows "extends (bind m f)"
proof (rule extendsI)
  fix s
  obtain r s1 where m: "m s = (r, s1)" by (cases "m s")
  from extendsD [OF assms(1), of s] m obtain e1 where e1: "trace s1 = trace s @ e1" by auto
  show "\<exists>extra. trace (snd (bind m f s)) = trace s @ extra"
  proof (cases r)
    case (Inl e)
    with m e1 show ?thesis by (simp add: bind_def)
  next
    case (Inr x)
    from extendsD [OF assms(2), of x s1] obtain e2
      where "trace (snd (f x s1)) = trace s1 @ e2" by auto
    with m e1 Inr show ?thesis by (simp add: bind_def)
  qed
qed

lemma extends_try_catch:
  assumes "extends m" and "\<And>e. extends (h e)"
  shows "extends (try_catch m h)"
proof (rule extendsI)
  fix s
  obtain r s1 where m: "m s = (r, s1)" by (cases "m s")
  from extendsD [OF assms(1), of s] m obtain e1 where e1: "trace s1 = trace s @ e1" by auto
  show "\<exists>extra. trace (snd (try_catch m h s)) = trace s @ extra"
  proof (cases r)
    case (Inr x)
    with m e1 show ?thesis by (simp add: try_catch_def)
  next
    case (Inl e)
    from extendsD [OF assms(2), of e s1] obtain e2
      where "trace (snd (h e s1)) = trace s1 @ e2" by auto
    with m e1 Inl show ?thesis by (simp add: try_catch_def)
  qed
qed

lemma extends_exec: "extends k \<Longrightarrow> extends (exec n p k)"
  by (induction p)
    (simp_all add: extends_return extends_throw extends_emit extends_bind extends_try_catch)

lemma extends_script: "extends k \<Longrightarrow> extends (script n body ctx k)"
  by (simp add: script_def extends_bind extends_emit extends_exec)

lemma extends_concat_next:
  "extends (andThen ctx next) \<Longrightarrow> extends (concat_next a andThen ctx next)"
  by (simp add: concat_next_def extends_bind extends_get_flag extends_set_flag extends_throw)

lemma extends_leaf: "extends leaf"
  by (simp add: leaf_def extends_return)

lemma tkeepsI: "(\<And>s. P (trace s) \<Longrightarrow> P (trace (snd (c s)))) \<Longrightarrow> tkeeps P c"
  by (simp add: tkeeps_def)

lemma tkeepsD: "tkeeps P c \<Longrightarrow> P (trace s) \<Longrightarrow> P (trace (snd (c s)))"
  by (simp add: tkeeps_def)

lemma tkeeps_return: "tkeeps P (return x)"
  by (simp add: tkeeps_def return_def)

lemma tkeeps_throw: "tkeeps P (throw e)"
  by (simp add: tkeeps_def throw_def)

lemma tkeeps_new_flag: "tkeeps P new_flag"
  by (simp add: tkeeps_def new_flag_def)

lemma tkeeps_get_flag: "tkeeps P (get_flag a)"
  by (simp add: tkeeps_def get_flag_def)

lemma tkeeps_set_flag: "tkeeps P (set_flag a b)"
  by (simp add: tkeeps_def set_flag_def)

lemma tkeeps_emit: "(\<And>tr. P tr \<Longrightarrow> P (tr @ [e])) \<Longrightarrow> tkeeps P (emit e)"
  by (simp add: tkeeps_def emit_def)

lemma tkeeps_bind:
  assumes "tkeeps P m" and "\<And>x. tkeeps P (f x)"
  shows "tkeeps P (bind m f)"
proof (rule tkeepsI)
  fix s :: dstate assume P: "P (trace s)"
  obtain r s1 where m: "m s = (r, s1)" by (cases "m s")
  from tkeepsD [OF assms(1) P] m have P1: "P (trace s1)" by simp
  show "P (trace (snd (bind m f s)))"
  proof (cases r)
    case (Inl e)
    with m P1 show ?thesis by (simp add: bind_def)
  next
    case (Inr x)
    with m tkeepsD [OF assms(2) P1, of x] show ?thesis by (simp add: bind_def)
  qed
qed

lemma tkeeps_try_catch:
  assumes "tkeeps P m" and "\<And>e. tkeeps P (h e)"
  shows "tkeeps P (try_catch m h)"
proof (rule tkeepsI)
  fix s :: dstate assume P: "P (trace s)"
  obtain r s1 where m: "m s = (r, s1)" by (cases "m s")
  from tkeepsD [OF assms(1) P] m have P1: "P (trace s1)" by simp
  show "P (trace (snd (try_catch m h s)))"
  proof (cases r)
    case (Inr x)
    with m P1 show ?thesis by (simp add: try_catch_def)
  next
    case (Inl e)
    with m tkeepsD [OF assms(2) P1, of e] show ?thesis by (simp add: try_catch_def)
  qed
qed

lemma tkeeps_concat_next:
  "tkeeps P (andThen ctx next) \<Longrightarrow> tkeeps P (concat_next a andThen ctx next)"
  by (simp add: concat_next_def tkeeps_bind tkeeps_get_flag tkeeps_set_flag tkeeps_throw)

text \<open>A middleware keeps what its continuation keeps, if its own observations keep it.\<close>

lemma tkeeps_exec:
  assumes "tkeeps P k"
    and "\<And>tr. P tr \<Longrightarrow> P (tr @ [Invoked n])"
    and "\<And>tr l. P tr \<Longrightarrow> P (tr @ [Did n l])"
  shows "tkeeps P (exec n p k)"
  using assms
  by (induction p)
    (simp_all add: tkeeps_return tkeeps_throw tkeeps_emit tkeeps_bind tkeeps_try_catch)

text \<open>Once \<open>x\<close> was observed, whatever only adds observations keeps \<open>x\<close> before \<open>y\<close>.\<close>

lemma tkeeps_after:
  assumes "extends c"
  shows "tkeeps (\<lambda>tr. precedes x y tr \<and> x \<in> set tr) c"
proof (rule tkeepsI)
  fix s :: dstate assume P: "precedes x y (trace s) \<and> x \<in> set (trace s)"
  from extendsD [OF assms, of s] obtain extra where "trace (snd (c s)) = trace s @ extra" by auto
  with P show "precedes x y (trace (snd (c s))) \<and> x \<in> set (trace (snd (c s)))"
    by (simp add: precedes_append_mem)
qed

lemma tkeeps_emit_first:
  assumes "extends c"
  shows "tkeeps (precedes x y) (bind (emit x) (\<lambda>_. c))"
proof (rule tkeepsI)
  fix s :: dstate assume P: "precedes x y (trace s)"
  let ?s1 = "s\<lparr>trace := trace s @ [x]\<rparr>"
  from P have "precedes x y (trace ?s1) \<and> x \<in> set (trace ?s1)"
    by (simp add: precedes_snoc_first)
  from tkeepsD [OF tkeeps_after [OF assms], of x y ?s1, OF this]
  show "precedes x y (trace (snd (bind (emit x) (\<lambda>_. c) s)))"
    by (simp add: bind_emit)
qed

text \<open>Whatever follows the invocation of the continuation comes after \<open>Invoked n\<close>.\<close>

lemma exec_invoked_first:
  assumes "extends k" and "\<And>l. y \<noteq> Did n l"
  shows "tkeeps (precedes (Invoked n) y) (exec n p k)"
proof (induction p)
  case Return
  show ?case by (simp add: tkeeps_return)
next
  case (Effect l p)
  have "tkeeps (precedes (Invoked n) y) (emit (Did n l))"
    using assms(2) [of l] by (intro tkeeps_emit precedes_snoc) auto
  with Effect show ?case by (simp add: tkeeps_bind)
next
  case (Throw v)
  show ?case by (simp add: tkeeps_throw)
next
  case (CallNext p)
  have "extends (bind k (\<lambda>_. exec n p k))"
    by (intro extends_bind extends_exec assms(1))
  then show ?case by (simp add: tkeeps_emit_first)
next
  case (TryNext h p)
  have "extends (bind (try_catch k (\<lambda>_. exec n h k)) (\<lambda>_. exec n p k))"
    by (intro extends_bind extends_try_catch extends_exec assms(1))
  then show ?case by (simp add: tkeeps_emit_first)
qed

lemma script_started_first:
  assumes "extends k"
  shows "tkeeps (precedes (Started n) y) (script n body ctx k)"
  unfolding script_def
  by (intro tkeeps_emit_first extends_exec assms)

lemma handle_registered3:
  "handle (registered3 A B C) ctx
   = bind new_flag (\<lambda>a0. bind new_flag (\<lambda>a1. bind new_flag (\<lambda>a2.
       concat_next a2 A ctx (concat_next a1 B ctx (concat_next a0 C ctx leaf)))))"
  by (simp add: registered3_def Let_def handle_def run_def middleware_def handler_use
      handler_new_Composer_Nil handler_new_Composer_single concat_mw_def pass_def)

lemma chain_keeps:
  assumes "\<And>a0 a1. tkeeps P (A ctx (concat_next a1 B ctx (concat_next a0 C ctx leaf)))"
    and "P []"
  shows "P (dispatch_trace (registered3 A B C) ctx)"
proof -
  have "tkeeps P (handle (registered3 A B C) ctx)"
    by (simp add: handle_registered3 tkeeps_bind tkeeps_new_flag tkeeps_concat_next assms(1))
  from tkeepsD [OF this, of start] assms(2) show ?thesis
    by (simp add: dispatch_trace_def start_def)
qed

lemma extends_rest:
  "extends (concat_next a0 (script nc C) ctx leaf)"
  "extends (concat_next a1 (script nb B) ctx (concat_next a0 (script nc C) ctx leaf))"
  by (simp_all add: extends_concat_next extends_script extends_leaf)

lemma started_a_before_invoked_a:
  "precedes (Started na) (Invoked na) (dispatch_trace (registered3 (script na A) (script nb B) (script nc C)) ctx)"
  by (rule chain_keeps) (simp_all add: script_started_first extends_rest)

lemma invoked_a_before_started_b:
  assumes "na \<noteq> nb"
  shows "precedes (Invoked na) (Started nb)
           (dispatch_trace (registered3 (script na A) (script nb B) (script nc C)) ctx)"
proof (rule chain_keeps)
  fix a0 a1
  let ?k1 = "concat_next a1 (script nb B) ctx (concat_next a0 (script nc C) ctx leaf)"
  have "tkeeps (precedes (Invoked na) (Started nb)) (emit (Started na))"
    using assms by (intro tkeeps_emit precedes_snoc) auto
  moreover have "tkeeps (precedes (Invoked na) (Started nb)) (exec na (A ctx) ?k1)"
    by (rule exec_invoked_first) (simp_all add: extends_rest)
  ultimately show "tkeeps (precedes (Invoked na) (Started nb)) (script na A ctx ?k1)"
    by (simp add: script_def tkeeps_bind)
qed simp

lemma started_b_before_invoked_b:
  assumes "na \<noteq> nb"
  shows "precedes (Started nb) (Invoked nb)
           (dispatch_trace (registered3 (script na A) (script nb B) (script nc C)) ctx)"
proof (rule chain_keeps)
  fix a0 a1
  let ?P = "precedes (Started nb) (Invoked nb)"
  let ?k1 = "concat_next a1 (script nb B) ctx (concat_next a0 (script nc C) ctx leaf)"
  have k1: "tkeeps ?P ?k1"
    by (intro tkeeps_concat_next script_started_first) (simp add: extends_rest)
  have "tkeeps ?P (emit (Started na))"
    by (intro tkeeps_emit precedes_snoc) auto
  moreover have "tkeeps ?P (exec na (A ctx) ?k1)"
    using assms by (intro tkeeps_exec k1 precedes_snoc) auto
  ultimately show "tkeeps ?P (script na A ctx ?k1)"
    by (simp add: script_def tkeeps_bind)
qed simp

lemma invoked_b_before_started_c:
  assumes "na \<noteq> nc" and "nb \<noteq> nc"
  shows "precedes (Invoked nb) (Started nc)
           (dispatch_trace (registered3 (script na A) (script nb B) (script nc C)) ctx)"
proof (rule chain_keeps)
  fix a0 a1
  let ?P = "precedes (Invoked nb) (Started nc)"
  let ?k0 = "concat_next a0 (script nc C) ctx leaf"
  let ?k1 = "concat_next a1 (script nb B) ctx ?k0"
  have "tkeeps ?P (emit (Started nb))"
    using assms by (intro tkeeps_emit precedes_snoc) auto
  moreover have "tkeeps ?P (exec nb (B ctx) ?k0)"
    by (rule exec_invoked_first) (simp_all add: extends_rest)
  ultimately have "tkeeps ?P (script nb B ctx ?k0)"
    by (simp add: script_def tkeeps_bind)
  then have k1: "tkeeps ?P ?k1" by (rule tkeeps_concat_next)
  have "tkeeps ?P (emit (Started na))"
    using assms by (intro tkeeps_emit precedes_snoc) auto
  moreover have "tkeeps ?P (exec na (A ctx) ?k1)"
    by (intro tkeeps_exec k1 precedes_snoc) auto
  ultimately show "tkeeps ?P (script na A ctx ?k1)"
    by (simp add: script_def tkeeps_bind)
qed simp

lemma exec_quiet:
  "quiet p \<Longrightarrow> exec n p k s = (Inr (), s\<lparr>trace := trace s @ map (Did n) (labels p)\<rparr>)"
  by (induction p arbitrary: s) (simp_all add: bind_emit return_apply)

lemma exec_calls_once:
  "calls_once p \<Longrightarrow>
   k (s\<lparr>trace := trace s @ map (Did n) (labels p) @ [Invoked n]\<rparr>) = (Inr (), s1) \<Longrightarrow>
   exec n p k s = (Inr (), s1\<lparr>trace := trace s1 @ map (Did n) (labels (after_call p))\<rparr>)"
proof (induction p arbitrary: s)
  case (Effect l p)
  then show ?case by (simp add: bind_emit)
next
  case (CallNext p)
  then show ?case by (simp add: bind_emit bind_Inr exec_quiet)
next
  case (TryNext h p)
  then show ?case by (simp add: bind_emit bind_Inr try_catch_def exec_quiet)
qed simp_all

lemma scenario_run:
  assumes "calls_once (A ctx)" and "quiet (B ctx)"
  shows "handle (registered3 (script na A) (script nb B) (script nc C)) ctx start
         = (Inr (),
            \<lparr> flags = [False, True, True],
              trace = [Started na] @ map (Did na) (labels (A ctx)) @ [Invoked na, Started nb]
                      @ map (Did nb) (labels (B ctx)) @ map (Did na) (labels (after_call (A ctx))) \<rparr>)"
proof -
  let ?k0 = "concat_next 0 (script nc C) ctx leaf"
  let ?k1 = "concat_next (Suc 0) (script nb B) ctx ?k0"
  let ?s = "\<lparr> flags = [False, False, True], trace = [Started na] \<rparr>"
  have k1: "?k1 (?s\<lparr>trace := trace ?s @ map (Did na) (labels (A ctx)) @ [Invoked na]\<rparr>)
            = (Inr (), \<lparr> flags = [False, True, True],
                        trace = [Started na] @ map (Did na) (labels (A ctx))
                                @ [Invoked na, Started nb] @ map (Did nb) (labels (B ctx)) \<rparr>)"
    using assms(2)
    by (simp add: concat_next_flag_unset script_def bind_emit exec_quiet)
  have "exec na (A ctx) ?k1 ?s
        = (Inr (), \<lparr> flags = [False, True, True],
              trace = [Started na] @ map (Did na) (labels (A ctx)) @ [Invoked na, Started nb]
                      @ map (Did nb) (labels (B ctx)) @ map (Did na) (labels (after_call (A ctx))) \<rparr>)"
    using exec_calls_once [where k = ?k1 and s = ?s and n = na, OF assms(1) k1] by simp
  then show ?thesis
    by (simp add: handle_registered3 start_def bind_def new_flag_def concat_next_flag_unset
        script_def emit_def)
qed

text \<open>
  C9. Three middlewares \<open>na\<close>, \<open>nb\<close>, \<open>nc\<close> with any bodies are registered with
  \<^verbatim>\<open>use\<close> on one composer, and an event is dispatched. In what is observed, every start of
  a later middleware comes after a start of each earlier one, and after an invocation of the
  continuation by each earlier one; so \<open>nc\<close> never starts when \<open>nb\<close> does not invoke its
  continuation. When \<open>na\<close> invokes its continuation and returns, and \<open>nb\<close> returns without
  invoking its own, then \<open>nb\<close> ran, \<open>nc\<close> did not, and \<^verbatim>\<open>handle\<close> returns normally.
\<close>

theorem use_order_and_short_circuit:
  assumes "distinct [na, nb, nc]"
  shows "let tr = dispatch_trace (registered3 (script na A) (script nb B) (script nc C)) ctx in
           precedes (Started na) (Started nb) tr
           \<and> precedes (Started nb) (Started nc) tr
           \<and> precedes (Started na) (Started nc) tr
           \<and> precedes (Invoked na) (Started nb) tr
           \<and> precedes (Invoked nb) (Started nc) tr
           \<and> precedes (Invoked na) (Started nc) tr
           \<and> (Invoked nb \<notin> set tr \<longrightarrow> Started nc \<notin> set tr)
           \<and> (calls_once (A ctx) \<and> quiet (B ctx) \<longrightarrow>
                Started na \<in> set tr \<and> Invoked na \<in> set tr \<and> Started nb \<in> set tr
                \<and> Invoked nb \<notin> set tr \<and> Started nc \<notin> set tr
                \<and> fst (handle (registered3 (script na A) (script nb B) (script nc C)) ctx start)
                    = Inr ())"
proof -
  let ?c = "registered3 (script na A) (script nb B) (script nc C)"
  let ?tr = "dispatch_trace ?c ctx"
  from assms have ne: "na \<noteq> nb" "na \<noteq> nc" "nb \<noteq> nc" by auto
  have sa_ia: "precedes (Started na) (Invoked na) ?tr"
    by (rule started_a_before_invoked_a)
  have ia_sb: "precedes (Invoked na) (Started nb) ?tr"
    by (rule invoked_a_before_started_b [OF ne(1)])
  have sb_ib: "precedes (Started nb) (Invoked nb) ?tr"
    by (rule started_b_before_invoked_b [OF ne(1)])
  have ib_sc: "precedes (Invoked nb) (Started nc) ?tr"
    by (rule invoked_b_before_started_c [OF ne(2) ne(3)])
  have sa_sb: "precedes (Started na) (Started nb) ?tr"
    by (rule precedes_trans [OF sa_ia ia_sb])
  have sb_sc: "precedes (Started nb) (Started nc) ?tr"
    by (rule precedes_trans [OF sb_ib ib_sc])
  have sa_sc: "precedes (Started na) (Started nc) ?tr"
    by (rule precedes_trans [OF sa_sb sb_sc])
  have ia_sc: "precedes (Invoked na) (Started nc) ?tr"
    by (rule precedes_trans [OF ia_sb sb_sc])
  have short: "Invoked nb \<notin> set ?tr \<longrightarrow> Started nc \<notin> set ?tr"
    using precedes_absent [OF ib_sc] by blast
  have scen: "calls_once (A ctx) \<and> quiet (B ctx) \<longrightarrow>
                Started na \<in> set ?tr \<and> Invoked na \<in> set ?tr \<and> Started nb \<in> set ?tr
                \<and> Invoked nb \<notin> set ?tr \<and> Started nc \<notin> set ?tr
                \<and> fst (handle ?c ctx start) = Inr ()"
  proof
    assume "calls_once (A ctx) \<and> quiet (B ctx)"
    then have run: "handle ?c ctx start
         = (Inr (),
            \<lparr> flags = [False, True, True],
              trace = [Started na] @ map (Did na) (labels (A ctx)) @ [Invoked na, Started nb]
                      @ map (Did nb) (labels (B ctx)) @ map (Did na) (labels (after_call (A ctx))) \<rparr>)"
      by (simp add: scenario_run)
    show "Started na \<in> set ?tr \<and> Invoked na \<in> set ?tr \<and> Started nb \<in> set ?tr
          \<and> Invoked nb \<notin> set ?tr \<and> Started nc \<notin> set ?tr
          \<and> fst (handle ?c ctx start) = Inr ()"
      using ne by (auto simp add: dispatch_trace_def run)
  qed
  show ?thesis
    unfolding Let_def
    using sa_sb sb_sc sa_sc ia_sb ib_sc ia_sc short scen by blast
qed

theorem use_order_and_short_circuit_witness:
  "distinct [''A'', ''B'', ''C'']
   \<and> calls_once (always (Effect ''log'' (CallNext Return)) push_ctx)
   \<and> quiet (always (Effect ''stop'' Return) push_ctx)
   \<and> handle (registered3 (script ''A'' (always (Effect ''log'' (CallNext Return))))
                            (script ''B'' (always (Effect ''stop'' Return)))
                            (script ''C'' (always (CallNext Return)))) push_ctx start
     = (Inr (),
        \<lparr> flags = [False, True, True],
          trace = [Started ''A'', Did ''A'' ''log'', Invoked ''A'', Started ''B'', Did ''B'' ''stop''] \<rparr>)
   \<and> precedes (Started ''A'') (Started ''B'')
       [Started ''A'', Did ''A'' ''log'', Invoked ''A'', Started ''B'', Did ''B'' ''stop'']
   \<and> precedes (Invoked ''A'') (Started ''B'')
       [Started ''A'', Did ''A'' ''log'', Invoked ''A'', Started ''B'', Did ''B'' ''stop'']
   \<and> precedes (Invoked ''B'') (Started ''C'')
       [Started ''A'', Did ''A'' ''log'', Invoked ''A'', Started ''B'', Did ''B'' ''stop'']"
proof -
  have d: "distinct [''A'', ''B'', ''C'']" by simp
  have run: "handle (registered3 (script ''A'' (always (Effect ''log'' (CallNext Return))))
                            (script ''B'' (always (Effect ''stop'' Return)))
                            (script ''C'' (always (CallNext Return)))) push_ctx start
     = (Inr (),
        \<lparr> flags = [False, True, True],
          trace = [Started ''A'', Did ''A'' ''log'', Invoked ''A'', Started ''B'', Did ''B'' ''stop''] \<rparr>)"
    by (simp add: registered3_def eval_defs)
  show ?thesis
    using run
      use_order_and_short_circuit [OF d, of "always (Effect ''log'' (CallNext Return))"
        "always (Effect ''stop'' Return)" "always (CallNext Return)" push_ctx]
    by (simp add: dispatch_trace_def always_def Let_def)
qed

end
